theory Spec2Isabelle
  imports Main "HOL-Library.Char_ord" "HOL-Library.List_Lexorder"
begin

section \<open>Commits and store events\<close>

text \<open>
  A commit (called a diff node by the SQLite server package) is an immutable record. The
  in-memory store only ever looks at \<open>ref\<close>; the remaining fields are opaque to it, so the
  record is polymorphic in the types of \<open>remoteSyncId\<close>, \<open>editMetadata\<close> and \<open>delta\<close>.
  An absent optional field (\<^verbatim>\<open>undefined\<close>) is \<open>None\<close>.
\<close>

record ('r, 'e, 'd) commit =
  ref :: string
  remoteSyncId :: 'r
  userId :: string
  clientId :: string
  baseRef :: "string option"
  mergeRef :: "string option"
  mergeBaseRef :: "string option"
  delta :: 'd
  editMetadata :: 'e

text \<open>
  The events the store returns are a tagged union on the field \<^verbatim>\<open>type\<close>:
  \<^verbatim>\<open>{type: 'ack', refs, syncId}\<close> and \<^verbatim>\<open>{type: 'commits', commits, syncId?}\<close>.
\<close>

datatype 'c storeEvent =
    AckCommitsEvent "string list" string
  | CommitsEvent "'c list" "string option"

datatype remoteSyncInfo = RemoteSyncInfo string "string option"

section \<open>Base-36 sync cursors\<close>

text \<open>
  \<^verbatim>\<open>Number.prototype.toString(36)\<close> on a non-negative integer: the digits \<^verbatim>\<open>0-9a-z\<close>,
  most significant first, no leading zero. The numbers rendered here are array lengths
  (below \<open>2^32\<close>), where JavaScript numbers are exact, so they are modelled as \<open>nat\<close>.
\<close>

definition digitChar :: "nat \<Rightarrow> char" where
  "digitChar d = (if d < 10 then char_of (48 + d) else char_of (87 + d))"

function toString36 :: "nat \<Rightarrow> string" where
  "toString36 n = (if n < 36 then [digitChar n] else toString36 (n div 36) @ [digitChar (n mod 36)])"
  by pat_completeness auto
termination
  by (relation "measure (\<lambda>n. n)") auto

declare toString36.simps [simp del]

text \<open>
  \<^verbatim>\<open>parseInt(string, 36)\<close>: skip leading white space, read an optional sign, take the longest
  prefix of radix-36 digits (either letter case); the result is \<^verbatim>\<open>NaN\<close> (here \<open>None\<close>) when
  that prefix is empty. With radix 36 no \<^verbatim>\<open>0x\<close> prefix is stripped.
\<close>

definition isWhiteSpace :: "char \<Rightarrow> bool" where
  "isWhiteSpace c = ((of_char c :: nat) \<in> {9, 10, 11, 12, 13, 32, 160})"

definition digitVal :: "char \<Rightarrow> nat option" where
  "digitVal c =
     (let k = (of_char c :: nat) in
      if 48 \<le> k \<and> k \<le> 57 then Some (k - 48)
      else if 97 \<le> k \<and> k \<le> 122 then Some (k - 87)
      else if 65 \<le> k \<and> k \<le> 90 then Some (k - 55)
      else None)"

definition isDigit36 :: "char \<Rightarrow> bool" where
  "isDigit36 c = (digitVal c \<noteq> None)"

definition digitsValue :: "string \<Rightarrow> nat" where
  "digitsValue z = foldl (\<lambda>acc c. acc * 36 + the (digitVal c)) 0 z"

definition parseInt36 :: "string \<Rightarrow> int option" where
  "parseInt36 str =
     (let s = dropWhile isWhiteSpace str;
          neg = (s \<noteq> [] \<and> hd s = CHR ''-'');
          s1 = (if s \<noteq> [] \<and> (hd s = CHR ''+'' \<or> hd s = CHR ''-'') then tl s else s);
          z = takeWhile isDigit36 s1
      in if z = [] then None
         else Some (if neg then - int (digitsValue z) else int (digitsValue z)))"

definition getSyncCounter :: "string \<Rightarrow> int option" where
  "getSyncCounter syncCursor = parseInt36 syncCursor"

section \<open>Array slicing\<close>

text \<open>
  \<^verbatim>\<open>Array.prototype.slice(start, end)\<close>: an index that is \<^verbatim>\<open>NaN\<close> counts as 0, a negative
  index counts from the end, and both are clamped to the array; a missing \<^verbatim>\<open>end\<close> is the
  length.
\<close>

definition relativeIndex :: "nat \<Rightarrow> int option \<Rightarrow> nat" where
  "relativeIndex len k =
     (case k of
        None \<Rightarrow> 0
      | Some i \<Rightarrow> if i < 0 then nat (max (int len + i) 0) else min (nat i) len)"

definition slice :: "'a list \<Rightarrow> int option \<Rightarrow> int option option \<Rightarrow> 'a list" where
  "slice xs start fin =
     (let len = length xs;
          k = relativeIndex len start;
          final = (case fin of None \<Rightarrow> len | Some e \<Rightarrow> relativeIndex len e)
      in take (final - k) (drop k xs))"

section \<open>The in-memory store\<close>

text \<open>
  The fields of \<^verbatim>\<open>MemoryStore\<close>. The two \<^verbatim>\<open>Set<string>\<close> fields are only ever extended
  and tested for membership, so they are sets. The connected remotes and local stores are
  objects of classes defined elsewhere; the store only keeps them in arrays and shuts them
  down, so their types are parameters.
\<close>

record ('r, 'e, 'd, 'rm, 'ls) memoryStore =
  remotes :: "'rm list"
  commits :: "('r, 'e, 'd) commit list"
  localCommitRefs :: "string set"
  syncedCommits :: "string set"
  localStoreId :: string
  lastRemoteSyncCursor :: "string option"
  localStores :: "'ls list"
  writeErrorMode :: bool
  channelName :: string
  online :: bool

text \<open>
  Modelled from the spec: the class \<^verbatim>\<open>PromiseQueue\<close> (\<^verbatim>\<open>lib/PromiseQueue\<close>) is not among
  the sources. By the spec all operations of a store are serialized through a per-store
  FIFO queue and concurrent callers observe a total order, and an error inside a task
  rejects its promise without corrupting the queue. So \<^verbatim>\<open>queue.add(task)\<close> runs the task
  on the store as the tasks added before it left it, and settles with the task's result.
\<close>

definition queueAdd :: "('s \<Rightarrow> 'a) \<Rightarrow> 's \<Rightarrow> 'a" where
  "queueAdd task s = task s"

declare queueAdd_def [simp]

definition getCommits :: "('r, 'e, 'd, 'rm, 'ls) memoryStore \<Rightarrow> ('r, 'e, 'd) commit list" where
  "getCommits s = commits s"

definition syncCursor :: "('r, 'e, 'd, 'rm, 'ls) memoryStore \<Rightarrow> string" where
  "syncCursor s = toString36 (length (commits s))"

text \<open>
  The first loop of \<^verbatim>\<open>addCommits\<close>: a commit whose ref is unknown is pushed and its ref
  recorded; every ref is added to the local \<^verbatim>\<open>Set\<close> \<^verbatim>\<open>refs\<close>, kept here as the list
  \<^verbatim>\<open>Array.from(refs)\<close> gives (first occurrences, in insertion order).
\<close>

definition setAdd :: "string list \<Rightarrow> string \<Rightarrow> string list" where
  "setAdd refs r = (if r \<in> set refs then refs else refs @ [r])"

fun pushCommits ::
  "('r, 'e, 'd) commit list \<Rightarrow> ('r, 'e, 'd, 'rm, 'ls) memoryStore \<times> string list \<Rightarrow>
   ('r, 'e, 'd, 'rm, 'ls) memoryStore \<times> string list" where
  "pushCommits [] (s, refs) = (s, refs)"
| "pushCommits (c # cs) (s, refs) =
     (let s' = (if ref c \<notin> localCommitRefs s
                then s\<lparr>commits := commits s @ [c],
                       localCommitRefs := insert (ref c) (localCommitRefs s)\<rparr>
                else s)
      in pushCommits cs (s', setAdd refs (ref c)))"

fun markSynced ::
  "string list \<Rightarrow> ('r, 'e, 'd, 'rm, 'ls) memoryStore \<Rightarrow> ('r, 'e, 'd, 'rm, 'ls) memoryStore" where
  "markSynced [] s = s"
| "markSynced (r # rs) s = markSynced rs (s\<lparr>syncedCommits := insert r (syncedCommits s)\<rparr>)"

definition addCommits ::
  "('r, 'e, 'd) commit list \<Rightarrow> string option \<Rightarrow> ('r, 'e, 'd, 'rm, 'ls) memoryStore \<Rightarrow>
   ('r, 'e, 'd) commit storeEvent \<times> ('r, 'e, 'd, 'rm, 'ls) memoryStore" where
  "addCommits cs remoteSyncId' s =
     queueAdd (\<lambda>s.
       let (s1, refs) = pushCommits cs (s, []);
           s2 = (case remoteSyncId' of
                   None \<Rightarrow> s1
                 | Some r \<Rightarrow> (markSynced (map ref cs) s1)\<lparr>lastRemoteSyncCursor := Some r\<rparr>)
       in (AckCommitsEvent refs (syncCursor s2), s2)) s"

definition acknowledgeCommits ::
  "string list \<Rightarrow> string \<Rightarrow> ('r, 'e, 'd, 'rm, 'ls) memoryStore \<Rightarrow>
   ('r, 'e, 'd, 'rm, 'ls) memoryStore" where
  "acknowledgeCommits refs remoteSyncId' s =
     queueAdd (\<lambda>s. (markSynced refs s)\<lparr>lastRemoteSyncCursor := Some remoteSyncId'\<rparr>) s"

definition getLocalCommitsEvent ::
  "string option \<Rightarrow> ('r, 'e, 'd, 'rm, 'ls) memoryStore \<Rightarrow> ('r, 'e, 'd) commit storeEvent" where
  "getLocalCommitsEvent startSyncCursor s =
     queueAdd (\<lambda>s.
       CommitsEvent
         (case startSyncCursor of
            Some c \<Rightarrow> slice (commits s) (getSyncCounter c) None
          | None \<Rightarrow> commits s)
         (Some (syncCursor s))) s"

definition getRemoteSyncInfo :: "('r, 'e, 'd, 'rm, 'ls) memoryStore \<Rightarrow> remoteSyncInfo" where
  "getRemoteSyncInfo s =
     queueAdd (\<lambda>s. RemoteSyncInfo (localStoreId s) (lastRemoteSyncCursor s)) s"

text \<open>
  \<^verbatim>\<open>getCommitsForRemote\<close> is an asynchronous generator. Its first step filters the commits
  in one task of the queue; the steps then yield the slices \<^verbatim>\<open>[i, i + BATCH_SIZE)\<close> of that
  snapshot for \<^verbatim>\<open>i = 0, 5, 10, ...\<close>, so calls made on the store while the generator is
  suspended do not change what it yields. The generator is finite; the model is the list
  of all events yielded by one iteration whose first step runs on the store \<open>s\<close>.
\<close>

definition BATCH_SIZE :: nat where
  "BATCH_SIZE = 5"

function batches :: "nat \<Rightarrow> 'c list \<Rightarrow> 'c storeEvent list" where
  "batches i cs =
     (if i < length cs
      then CommitsEvent (slice cs (Some (int i)) (Some (Some (int (i + BATCH_SIZE))))) None
           # batches (i + BATCH_SIZE) cs
      else [])"
  by pat_completeness auto
termination
  by (relation "measure (\<lambda>(i, cs). length cs - i)") (auto simp: BATCH_SIZE_def)

declare batches.simps [simp del]

definition unsyncedCommits ::
  "('r, 'e, 'd, 'rm, 'ls) memoryStore \<Rightarrow> ('r, 'e, 'd) commit list" where
  "unsyncedCommits s = queueAdd (\<lambda>s. filter (\<lambda>c. ref c \<notin> syncedCommits s) (commits s)) s"

definition getCommitsForRemote ::
  "('r, 'e, 'd, 'rm, 'ls) memoryStore \<Rightarrow> ('r, 'e, 'd) commit storeEvent list" where
  "getCommitsForRemote s = batches 0 (unsyncedCommits s)"

text \<open>
  \<^verbatim>\<open>shutdown\<close> awaits \<^verbatim>\<open>remote.shutdown()\<close> for every remote and then
  \<^verbatim>\<open>local.shutdown()\<close> for every local store. Those methods belong to classes defined
  elsewhere, so they are parameters: each maps the object to its state after shutdown, or
  to \<open>None\<close> when the awaited promise rejects, which rejects \<^verbatim>\<open>shutdown\<close> at that point.
\<close>

datatype settled = Resolved | Rejected

fun shutdownEach :: "('a \<Rightarrow> 'a option) \<Rightarrow> 'a list \<Rightarrow> 'a list \<times> settled" where
  "shutdownEach f [] = ([], Resolved)"
| "shutdownEach f (x # xs) =
     (case f x of
        None \<Rightarrow> (x # xs, Rejected)
      | Some x' \<Rightarrow> (let (ys, r) = shutdownEach f xs in (x' # ys, r)))"

definition shutdown ::
  "('rm \<Rightarrow> 'rm option) \<Rightarrow> ('ls \<Rightarrow> 'ls option) \<Rightarrow> ('r, 'e, 'd, 'rm, 'ls) memoryStore \<Rightarrow>
   ('r, 'e, 'd, 'rm, 'ls) memoryStore \<times> settled" where
  "shutdown remoteShutdown localShutdown s =
     queueAdd (\<lambda>s.
       let (rs, r1) = shutdownEach remoteShutdown (remotes s);
           s1 = s\<lparr>remotes := rs\<rparr>
       in if r1 = Rejected then (s1, Rejected)
          else (let (ls, r2) = shutdownEach localShutdown (localStores s1)
                in (s1\<lparr>localStores := ls\<rparr>, r2))) s"

subsection \<open>Sequences of calls\<close>

text \<open>
  The public operations of the store as values, so that statements can range over every
  sequence of calls made between two observations. \<open>perform\<close> gives the response of one
  call and the store after it; \<open>run\<close> executes a sequence in call order, as the queue does.
\<close>

datatype ('r, 'e, 'd) call =
    AddCommits "('r, 'e, 'd) commit list" "string option"
  | AcknowledgeCommits "string list" string
  | GetLocalCommitsEvent "string option"
  | GetRemoteSyncInfo
  | GetCommitsForRemote
  | Shutdown

datatype 'c response =
    EventResponse "'c storeEvent"
  | InfoResponse remoteSyncInfo
  | StreamResponse "'c storeEvent list"
  | VoidResponse settled

fun perform ::
  "('rm \<Rightarrow> 'rm option) \<Rightarrow> ('ls \<Rightarrow> 'ls option) \<Rightarrow> ('r, 'e, 'd) call \<Rightarrow>
   ('r, 'e, 'd, 'rm, 'ls) memoryStore \<Rightarrow>
   ('r, 'e, 'd) commit response \<times> ('r, 'e, 'd, 'rm, 'ls) memoryStore" where
  "perform f g (AddCommits cs r) s = (let (ev, s') = addCommits cs r s in (EventResponse ev, s'))"
| "perform f g (AcknowledgeCommits refs r) s = (VoidResponse Resolved, acknowledgeCommits refs r s)"
| "perform f g (GetLocalCommitsEvent c) s = (EventResponse (getLocalCommitsEvent c s), s)"
| "perform f g GetRemoteSyncInfo s = (InfoResponse (getRemoteSyncInfo s), s)"
| "perform f g GetCommitsForRemote s = (StreamResponse (getCommitsForRemote s), s)"
| "perform f g Shutdown s = (let (s', r) = shutdown f g s in (VoidResponse r, s'))"

fun run ::
  "('rm \<Rightarrow> 'rm option) \<Rightarrow> ('ls \<Rightarrow> 'ls option) \<Rightarrow> ('r, 'e, 'd) call list \<Rightarrow>
   ('r, 'e, 'd, 'rm, 'ls) memoryStore \<Rightarrow> ('r, 'e, 'd, 'rm, 'ls) memoryStore" where
  "run f g [] s = s"
| "run f g (c # cs) s = run f g cs (snd (perform f g c s))"

text \<open>The commits carried by an event, and by a whole stream of events.\<close>

fun eventCommits :: "'c storeEvent \<Rightarrow> 'c list" where
  "eventCommits (CommitsEvent cs sid) = cs"
| "eventCommits (AckCommitsEvent refs sid) = []"

definition yielded :: "'c storeEvent list \<Rightarrow> 'c list" where
  "yielded evs = concat (map eventCommits evs)"

text \<open>
  The commits a call to \<^verbatim>\<open>addCommits\<close> accepts: those of the argument whose ref is neither
  known to the store nor carried by an earlier commit of the same argument.
\<close>

fun accepted :: "string set \<Rightarrow> ('r, 'e, 'd) commit list \<Rightarrow> ('r, 'e, 'd) commit list" where
  "accepted K [] = []"
| "accepted K (c # cs) =
     (if ref c \<in> K then accepted K cs else c # accepted (insert (ref c) K) cs)"

text \<open>A store as the constructor leaves it: no commits, nothing synced, no cursor.\<close>

definition newStore :: "string \<Rightarrow> string \<Rightarrow> ('r, 'e, 'd, 'rm, 'ls) memoryStore" where
  "newStore name storeId =
     \<lparr>remotes = [], commits = [], localCommitRefs = {}, syncedCommits = {},
      localStoreId = storeId, lastRemoteSyncCursor = None, localStores = [],
      writeErrorMode = False, channelName = name, online = True\<rparr>"

section \<open>The SQLite document store\<close>

text \<open>
  \<^verbatim>\<open>DocStore\<close> keeps the nodes in one table, \<^verbatim>\<open>ref TEXT PRIMARY KEY NOT NULL\<close>,
  \<^verbatim>\<open>remoteSyncId INTEGER NOT NULL\<close>, the other columns \<^verbatim>\<open>TEXT\<close>. The table is the list of
  its rows in insertion (rowid) order. A value read from the column \<^verbatim>\<open>remoteSyncId\<close> is a
  string or a number: the column has integer affinity, so SQLite stores text that looks
  like a number as a number and any other text unchanged.
\<close>

datatype 'n scalar = Str string | Num 'n

text \<open>
  What the store relies on from JavaScript and SQLite, as parameters:
  \<^verbatim>\<open>JSON.stringify\<close> (\<open>None\<close> when it returns \<^verbatim>\<open>undefined\<close>), \<^verbatim>\<open>JSON.parse\<close> (\<open>None\<close> when
  it throws), the numeric conversion of the integer affinity (\<open>None\<close> when the text is kept
  as text), SQLite's order on numbers, JavaScript's \<^verbatim>\<open>>\<close> when an operand is a number,
  and \<^verbatim>\<open>String\<close> on a number. Values of \<^verbatim>\<open>delta\<close> and \<^verbatim>\<open>editMetadata\<close> have type \<open>'j\<close>.
\<close>

record ('j, 'n) host =
  stringify :: "'j \<Rightarrow> string option"
  parse :: "string \<Rightarrow> 'j option"
  integerAffinity :: "string \<Rightarrow> 'n option"
  numberLessEq :: "'n \<Rightarrow> 'n \<Rightarrow> bool"
  numberGreater :: "'n scalar \<Rightarrow> 'n scalar \<Rightarrow> bool"
  numberToString :: "'n \<Rightarrow> string"

type_synonym ('j, 'n) diffNode = "('n scalar, 'j option, 'j option) commit"

type_synonym 'n sqliteNode = "('n scalar, string option, string option) commit"

datatype error = SqliteConstraintPrimaryKey | SyntaxError

datatype ackNodesEvent = AckNodesEvent "string list" string

datatype 'c nodesEvent = NodesEvent "'c list" string

definition applyAffinity :: "('j, 'n) host \<Rightarrow> string \<Rightarrow> 'n scalar" where
  "applyAffinity h v = (case integerAffinity h v of None \<Rightarrow> Str v | Some k \<Rightarrow> Num k)"

text \<open>SQLite's order on stored values: numbers before text, text bytewise.\<close>

fun sqlLessEq :: "('j, 'n) host \<Rightarrow> 'n scalar \<Rightarrow> 'n scalar \<Rightarrow> bool" where
  "sqlLessEq h (Num x) (Num y) = numberLessEq h x y"
| "sqlLessEq h (Num x) (Str y) = True"
| "sqlLessEq h (Str x) (Num y) = False"
| "sqlLessEq h (Str x) (Str y) = (x \<le> y)"

text \<open>JavaScript's \<^verbatim>\<open>a > b\<close>: two strings compare by code units.\<close>

fun jsGreater :: "('j, 'n) host \<Rightarrow> 'n scalar \<Rightarrow> 'n scalar \<Rightarrow> bool" where
  "jsGreater h (Str x) (Str y) = (y < x)"
| "jsGreater h a b = numberGreater h a b"

fun jsString :: "('j, 'n) host \<Rightarrow> 'n scalar \<Rightarrow> string" where
  "jsString h (Str x) = x"
| "jsString h (Num k) = numberToString h k"

text \<open>\<^verbatim>\<open>JSON.stringify(x)\<close> where \<^verbatim>\<open>x\<close> may be \<^verbatim>\<open>undefined\<close>; an \<^verbatim>\<open>undefined\<close> result is bound as \<^verbatim>\<open>NULL\<close>.\<close>

definition stringifyField :: "('j, 'n) host \<Rightarrow> 'j option \<Rightarrow> string option" where
  "stringifyField h x = (case x of None \<Rightarrow> None | Some v \<Rightarrow> stringify h v)"

definition toRow :: "('j, 'n) host \<Rightarrow> string \<Rightarrow> ('j, 'n) diffNode \<Rightarrow> 'n sqliteNode" where
  "toRow h remoteSyncId' n =
     \<lparr>ref = ref n, remoteSyncId = applyAffinity h remoteSyncId', userId = userId n,
      clientId = clientId n, baseRef = baseRef n, mergeRef = mergeRef n,
      mergeBaseRef = mergeBaseRef n, delta = stringifyField h (delta n),
      editMetadata = stringifyField h (editMetadata n)\<rparr>"

text \<open>
  The transaction of \<^verbatim>\<open>add\<close>: one \<^verbatim>\<open>INSERT\<close> per node, in order. An insert whose ref is
  already a key of the table violates the primary key; the statement throws, the
  transaction is rolled back and \<^verbatim>\<open>add\<close> throws.
\<close>

fun insertNodes ::
  "('j, 'n) host \<Rightarrow> string \<Rightarrow> ('j, 'n) diffNode list \<Rightarrow> 'n sqliteNode list \<Rightarrow>
   error + 'n sqliteNode list" where
  "insertNodes h sid [] rows = Inr rows"
| "insertNodes h sid (n # ns) rows =
     (if ref n \<in> ref ` set rows then Inl SqliteConstraintPrimaryKey
      else insertNodes h sid ns (rows @ [toRow h sid n]))"

text \<open>
  \<open>add h sid nodes db\<close>, where \<open>sid\<close> is the value \<^verbatim>\<open>syncIdCreator()\<close> returned for this call
  (by default the current time as an ISO string).
\<close>

definition add ::
  "('j, 'n) host \<Rightarrow> string \<Rightarrow> ('j, 'n) diffNode list \<Rightarrow> 'n sqliteNode list \<Rightarrow>
   (error + ackNodesEvent) \<times> 'n sqliteNode list" where
  "add h sid nodes db =
     (case insertNodes h sid nodes db of
        Inl e \<Rightarrow> (Inl e, db)
      | Inr rows \<Rightarrow> (Inr (AckNodesEvent (map ref nodes) sid), rows))"

text \<open>
  \<^verbatim>\<open>ORDER BY remoteSyncId\<close>. SQL leaves the order of rows with equal keys open; the model
  sorts stably, so such rows stay in rowid order, the order in which the table scan hands
  them to the sorter.
\<close>

fun insertRow :: "('j, 'n) host \<Rightarrow> 'n sqliteNode \<Rightarrow> 'n sqliteNode list \<Rightarrow> 'n sqliteNode list" where
  "insertRow h r [] = [r]"
| "insertRow h r (x # xs) =
     (if sqlLessEq h (remoteSyncId r) (remoteSyncId x) then r # x # xs
      else x # insertRow h r xs)"

definition orderByRemoteSyncId :: "('j, 'n) host \<Rightarrow> 'n sqliteNode list \<Rightarrow> 'n sqliteNode list" where
  "orderByRemoteSyncId h rows = foldr (insertRow h) rows []"

definition selectNodes ::
  "('j, 'n) host \<Rightarrow> string option \<Rightarrow> 'n sqliteNode list \<Rightarrow> 'n sqliteNode list" where
  "selectNodes h lastSyncId db =
     orderByRemoteSyncId h
       (case lastSyncId of
          None \<Rightarrow> db
        | Some l \<Rightarrow> filter (\<lambda>r. \<not> sqlLessEq h (remoteSyncId r) (applyAffinity h l)) db)"

text \<open>\<^verbatim>\<open>x || undefined\<close> on a column read as a string or \<^verbatim>\<open>null\<close>.\<close>

definition orUndefined :: "string option \<Rightarrow> string option" where
  "orUndefined x = (case x of None \<Rightarrow> None | Some t \<Rightarrow> if t = [] then None else Some t)"

text \<open>\<^verbatim>\<open>x ? JSON.parse(x) : undefined\<close>; a \<^verbatim>\<open>SyntaxError\<close> of the parser propagates.\<close>

definition parseField :: "('j, 'n) host \<Rightarrow> string option \<Rightarrow> error + 'j option" where
  "parseField h x =
     (case x of
        None \<Rightarrow> Inr None
      | Some t \<Rightarrow> if t = [] then Inr None
                  else (case parse h t of None \<Rightarrow> Inl SyntaxError | Some v \<Rightarrow> Inr (Some v)))"

text \<open>
  The callback of \<^verbatim>\<open>sqliteNodes.map\<close>, with the variable \<^verbatim>\<open>syncId\<close> it assigns threaded
  through the rows.
\<close>

fun readNodes ::
  "('j, 'n) host \<Rightarrow> 'n sqliteNode list \<Rightarrow> 'n scalar \<Rightarrow>
   error + (('j, 'n) diffNode list \<times> 'n scalar)" where
  "readNodes h [] syncId = Inr ([], syncId)"
| "readNodes h (r # rs) syncId =
     (let syncId' = (if jsGreater h (remoteSyncId r) syncId then remoteSyncId r else syncId)
      in case parseField h (delta r) of
           Inl e \<Rightarrow> Inl e
         | Inr d \<Rightarrow>
             (case parseField h (editMetadata r) of
                Inl e \<Rightarrow> Inl e
              | Inr m \<Rightarrow>
                  (case readNodes h rs syncId' of
                     Inl e \<Rightarrow> Inl e
                   | Inr (ns, final) \<Rightarrow>
                       Inr (\<lparr>ref = ref r, remoteSyncId = remoteSyncId r, userId = userId r,
                             clientId = clientId r, baseRef = orUndefined (baseRef r),
                             mergeRef = orUndefined (mergeRef r),
                             mergeBaseRef = orUndefined (mergeBaseRef r),
                             delta = d, editMetadata = m\<rparr> # ns, final))))"

definition getNodesEvent ::
  "('j, 'n) host \<Rightarrow> string option \<Rightarrow> 'n sqliteNode list \<Rightarrow>
   error + ('j, 'n) diffNode nodesEvent" where
  "getNodesEvent h lastSyncId db =
     (case readNodes h (selectNodes h lastSyncId db) (Str []) of
        Inl e \<Rightarrow> Inl e
      | Inr (nodes, syncId) \<Rightarrow> Inr (NodesEvent nodes (jsString h syncId)))"

text \<open>
  A value of \<^verbatim>\<open>delta\<close> or \<^verbatim>\<open>editMetadata\<close> is JSON-serializable when it is \<^verbatim>\<open>undefined\<close> or
  \<^verbatim>\<open>JSON.stringify\<close> gives a text that \<^verbatim>\<open>JSON.parse\<close> reads back as the same value.
\<close>

definition serializable :: "('j, 'n) host \<Rightarrow> 'j option \<Rightarrow> bool" where
  "serializable h x =
     (case x of
        None \<Rightarrow> True
      | Some v \<Rightarrow> (case stringify h v of
                     None \<Rightarrow> False
                   | Some t \<Rightarrow> t \<noteq> [] \<and> parse h t = Some v))"

definition roundTrips :: "('j, 'n) host \<Rightarrow> ('j, 'n) diffNode \<Rightarrow> bool" where
  "roundTrips h n =
     (serializable h (delta n) \<and> serializable h (editMetadata n) \<and>
      baseRef n \<noteq> Some [] \<and> mergeRef n \<noteq> Some [] \<and> mergeBaseRef n \<noteq> Some [])"

text \<open>
  The store numbers its commits by position: the commit at index \<open>i\<close> of the array has the
  local sync id \<open>i + 1\<close>, the value of the cursor \<^verbatim>\<open>commits.length\<close> right after it was
  pushed. \<^verbatim>\<open>getLocalCommitsEvent\<close> reads a cursor in the same way: \<^verbatim>\<open>slice(since)\<close> keeps
  the indices from \<open>since\<close> on.
\<close>

definition localSyncId :: "nat \<Rightarrow> nat" where
  "localSyncId i = Suc i"

section \<open>Sample data\<close>

text \<open>A commit with a given ref and a store holding given refs, for concrete instances.\<close>

definition commitWithRef :: "string \<Rightarrow> (string, string, string) commit" where
  "commitWithRef r =
     \<lparr>ref = r, remoteSyncId = [], userId = ''u'', clientId = ''c'', baseRef = None,
      mergeRef = None, mergeBaseRef = None, delta = ''d'', editMetadata = ''m''\<rparr>"

definition storeWith ::
  "string list \<Rightarrow> string set \<Rightarrow> (string, string, string, unit, unit) memoryStore" where
  "storeWith rs synced =
     (newStore ''doc'' ''store'')
       \<lparr>commits := map commitWithRef rs, localCommitRefs := set rs, syncedCommits := synced\<rparr>"

text \<open>
  A host for concrete instances, in which a JSON value is a string, rendered with a leading
  quote, and no text looks like a number (so the functions on numbers are never called).
\<close>

definition sampleHost :: "(string, unit) host" where
  "sampleHost =
     \<lparr>stringify = (\<lambda>v. Some (CHR 0x22 # v)),
      parse = (\<lambda>t. case t of [] \<Rightarrow> None | c # v \<Rightarrow> if c = CHR 0x22 then Some v else None),
      integerAffinity = (\<lambda>v. None),
      numberLessEq = (\<lambda>a b. True),
      numberGreater = (\<lambda>a b. False),
      numberToString = (\<lambda>k. [])\<rparr>"

definition nodeWithRef :: "string \<Rightarrow> string option \<Rightarrow> (string, unit) diffNode" where
  "nodeWithRef r parent =
     \<lparr>ref = r, remoteSyncId = Str [], userId = ''u'', clientId = ''c'', baseRef = parent,
      mergeRef = None, mergeBaseRef = None, delta = Some ''d'', editMetadata = Some []\<rparr>"

section \<open>Lemmas on cursors and slices\<close>

lemma of_char_digitChar:
  "d < 36 \<Longrightarrow> (of_char (digitChar d) :: nat) = (if d < 10 then 48 + d else 87 + d)"
  by (simp add: digitChar_def)

lemma digitVal_digitChar: "d < 36 \<Longrightarrow> digitVal (digitChar d) = Some d"
  by (simp add: digitVal_def of_char_digitChar Let_def)

lemma isDigit36_digitChar: "d < 36 \<Longrightarrow> isDigit36 (digitChar d)"
  by (simp add: isDigit36_def digitVal_digitChar)

lemma not_isWhiteSpace_digitChar: "d < 36 \<Longrightarrow> \<not> isWhiteSpace (digitChar d)"
  by (simp add: isWhiteSpace_def of_char_digitChar)

lemma digitChar_not_sign: "d < 36 \<Longrightarrow> digitChar d \<noteq> CHR ''-'' \<and> digitChar d \<noteq> CHR ''+''"
proof -
  assume d: "d < 36"
  have "(of_char (digitChar d) :: nat) \<noteq> of_char CHR ''-''"
    using d by (simp add: of_char_digitChar)
  moreover have "(of_char (digitChar d) :: nat) \<noteq> of_char CHR ''+''"
    using d by (simp add: of_char_digitChar)
  ultimately show ?thesis by auto
qed

lemma toString36_nonempty: "toString36 n \<noteq> []"
  by (subst toString36.simps) simp

lemma hd_toString36: "\<exists>d<36. hd (toString36 n) = digitChar d"
proof (induction n rule: toString36.induct)
  case (1 n)
  show ?case
  proof (cases "n < 36")
    case True
    then show ?thesis by (subst toString36.simps) auto
  next
    case False
    with 1 obtain d where "d < 36" "hd (toString36 (n div 36)) = digitChar d" by auto
    with False show ?thesis
      by (subst toString36.simps) (auto simp: toString36_nonempty)
  qed
qed

lemma all_digits_toString36: "\<forall>c \<in> set (toString36 n). isDigit36 c"
proof (induction n rule: toString36.induct)
  case (1 n)
  show ?case
  proof (cases "n < 36")
    case True
    then show ?thesis by (subst toString36.simps) (simp add: isDigit36_digitChar)
  next
    case False
    with 1 show ?thesis
      by (subst toString36.simps) (auto simp: isDigit36_digitChar)
  qed
qed

lemma digitsValue_snoc: "digitsValue (z @ [c]) = digitsValue z * 36 + the (digitVal c)"
  by (simp add: digitsValue_def)

lemma digitsValue_toString36: "digitsValue (toString36 n) = n"
proof (induction n rule: toString36.induct)
  case (1 n)
  show ?case
  proof (cases "n < 36")
    case True
    then show ?thesis
      by (subst toString36.simps) (simp add: digitsValue_def digitVal_digitChar)
  next
    case False
    with 1 have "digitsValue (toString36 (n div 36)) = n div 36" by simp
    with False show ?thesis
      by (subst toString36.simps) (simp add: digitsValue_snoc digitVal_digitChar)
  qed
qed

lemma parseInt36_toString36: "parseInt36 (toString36 n) = Some (int n)"
proof -
  obtain d where d: "d < 36" "hd (toString36 n) = digitChar d"
    using hd_toString36 by blast
  have ne: "toString36 n \<noteq> []" by (rule toString36_nonempty)
  have "\<not> isWhiteSpace (hd (toString36 n))"
    using d by (simp add: not_isWhiteSpace_digitChar)
  then have dw: "dropWhile isWhiteSpace (toString36 n) = toString36 n"
    using ne by (cases "toString36 n") auto
  have sg: "hd (toString36 n) \<noteq> CHR ''-''" "hd (toString36 n) \<noteq> CHR ''+''"
    using d digitChar_not_sign by auto
  have tw: "takeWhile isDigit36 (toString36 n) = toString36 n"
    using all_digits_toString36 by (simp add: takeWhile_eq_all_conv)
  show ?thesis
    by (simp add: parseInt36_def dw sg tw ne digitsValue_toString36 Let_def)
qed

lemma getSyncCounter_toString36: "getSyncCounter (toString36 n) = Some (int n)"
  by (simp add: getSyncCounter_def parseInt36_toString36)

lemma slice_from: "slice xs (Some (int n)) None = drop n xs"
  by (simp add: slice_def relativeIndex_def Let_def min_def)

lemma slice_range: "slice xs (Some (int i)) (Some (Some (int j))) = take (j - i) (drop i xs)"
  by (auto simp add: slice_def relativeIndex_def Let_def min_def)

lemma drop_as_positions:
  "drop n xs = map ((!) xs) (filter (\<lambda>i. n < Suc i) [0..<length xs])"
proof -
  have "filter (\<lambda>i. n < Suc i) [0..<m] = [n..<m]" for m
    by (induction m) auto
  moreover have "map ((!) xs) [n..<length xs] = drop n xs"
    by (rule nth_equalityI) auto
  ultimately show ?thesis by simp
qed

section \<open>Lemmas on the in-memory store\<close>

lemma markSynced_eq: "markSynced rs s = s\<lparr>syncedCommits := syncedCommits s \<union> set rs\<rparr>"
  by (induction rs arbitrary: s) auto

lemma pushCommits_fst:
  "fst (pushCommits cs (s, refs)) =
     s\<lparr>commits := commits s @ accepted (localCommitRefs s) cs,
       localCommitRefs := localCommitRefs s \<union> ref ` set cs\<rparr>"
proof (induction cs arbitrary: s refs)
  case Nil
  then show ?case by simp
next
  case (Cons c cs)
  show ?case
  proof (cases "ref c \<in> localCommitRefs s")
    case True
    then have "insert (ref c) (localCommitRefs s \<union> ref ` set cs) = localCommitRefs s \<union> ref ` set cs"
      by auto
    with True Cons show ?thesis by simp
  next
    case False
    with Cons show ?thesis by simp
  qed
qed

lemma pushCommits_snd: "snd (pushCommits cs (s, refs)) = foldl setAdd refs (map ref cs)"
  by (induction cs arbitrary: s refs) (auto simp: Let_def)

lemma accepted_known: "ref ` set cs \<subseteq> K \<Longrightarrow> accepted K cs = []"
  by (induction cs arbitrary: K) auto

lemma accepted_fresh: "c \<in> set (accepted K cs) \<Longrightarrow> ref c \<notin> K \<and> c \<in> set cs"
  by (induction cs arbitrary: K) (auto split: if_splits)

lemma accepted_mem: "c \<in> set cs \<Longrightarrow> ref c \<notin> K \<Longrightarrow> ref c \<in> ref ` set (accepted K cs)"
  by (induction cs arbitrary: K) (auto split: if_splits)

lemma accepted_distinct: "distinct (map ref (accepted K cs))"
proof (induction cs arbitrary: K)
  case Nil
  then show ?case by simp
next
  case (Cons c cs)
  have "ref c \<notin> ref ` set (accepted (insert (ref c) K) cs)"
    using accepted_fresh by fastforce
  with Cons show ?case by simp
qed

lemma accepted_disjoint: "K \<inter> ref ` set (accepted K cs) = {}"
proof -
  have "ref x \<notin> K" if "x \<in> set (accepted K cs)" for x
    using that accepted_fresh[of x K cs] by simp
  then show ?thesis by blast
qed

lemma set_foldl_setAdd: "set (foldl setAdd refs rs) = set refs \<union> set rs"
  by (induction rs arbitrary: refs) (auto simp: setAdd_def)

lemma addCommits_None:
  "addCommits cs None s =
     (AckCommitsEvent (foldl setAdd [] (map ref cs))
        (toString36 (length (commits s) + length (accepted (localCommitRefs s) cs))),
      s\<lparr>commits := commits s @ accepted (localCommitRefs s) cs,
        localCommitRefs := localCommitRefs s \<union> ref ` set cs\<rparr>)"
  by (simp add: addCommits_def case_prod_beta pushCommits_fst pushCommits_snd syncCursor_def)

lemma addCommits_Some:
  "addCommits cs (Some x) s =
     (AckCommitsEvent (foldl setAdd [] (map ref cs))
        (toString36 (length (commits s) + length (accepted (localCommitRefs s) cs))),
      s\<lparr>commits := commits s @ accepted (localCommitRefs s) cs,
        localCommitRefs := localCommitRefs s \<union> ref ` set cs,
        syncedCommits := syncedCommits s \<union> ref ` set cs,
        lastRemoteSyncCursor := Some x\<rparr>)"
  by (simp add: addCommits_def case_prod_beta pushCommits_fst pushCommits_snd syncCursor_def
      markSynced_eq)

lemma acknowledgeCommits_eq:
  "acknowledgeCommits refs r s =
     s\<lparr>syncedCommits := syncedCommits s \<union> set refs, lastRemoteSyncCursor := Some r\<rparr>"
  by (simp add: acknowledgeCommits_def markSynced_eq)

lemma commits_addCommits:
  "commits (snd (addCommits cs r s)) = commits s @ accepted (localCommitRefs s) cs"
  by (cases r) (simp_all add: addCommits_None addCommits_Some)

lemma localCommitRefs_addCommits:
  "localCommitRefs (snd (addCommits cs r s)) = localCommitRefs s \<union> ref ` set cs"
  by (cases r) (simp_all add: addCommits_None addCommits_Some)

lemma syncedCommits_addCommits:
  "syncedCommits (snd (addCommits cs r s)) =
     (case r of None \<Rightarrow> syncedCommits s | Some x \<Rightarrow> syncedCommits s \<union> ref ` set cs)"
  by (cases r) (simp_all add: addCommits_None addCommits_Some)

lemma shutdown_data:
  "commits (fst (shutdown f g s)) = commits s \<and>
   localCommitRefs (fst (shutdown f g s)) = localCommitRefs s \<and>
   syncedCommits (fst (shutdown f g s)) = syncedCommits s \<and>
   lastRemoteSyncCursor (fst (shutdown f g s)) = lastRemoteSyncCursor s \<and>
   localStoreId (fst (shutdown f g s)) = localStoreId s"
  by (simp add: shutdown_def case_prod_beta Let_def)

lemma shutdown_eq:
  "fst (shutdown f g s) =
     s\<lparr>remotes := remotes (fst (shutdown f g s)),
       localStores := localStores (fst (shutdown f g s))\<rparr>"
  by (simp add: shutdown_def case_prod_beta Let_def)

text \<open>
  What \<^verbatim>\<open>shutdown\<close> does to the remotes and local stores: the objects before the first
  one whose shutdown rejects are shut down, the others are left as they are.
\<close>

lemma shutdownEach_eq:
  "shutdownEach f xs =
     (map (the \<circ> f) (takeWhile (\<lambda>x. f x \<noteq> None) xs) @ dropWhile (\<lambda>x. f x \<noteq> None) xs,
      if \<forall>x \<in> set xs. f x \<noteq> None then Resolved else Rejected)"
proof (induction xs)
  case Nil
  then show ?case by simp
next
  case (Cons x xs)
  show ?case
  proof (cases "f x")
    case None
    then show ?thesis by simp
  next
    case (Some x')
    with Cons show ?thesis by simp
  qed
qed

lemma all_resolved:
  "\<forall>x \<in> set xs. P x \<Longrightarrow> takeWhile P xs = xs \<and> dropWhile P xs = []"
  by (induction xs) auto

lemma map_Some_the: "\<forall>x \<in> set xs. f x \<noteq> None \<Longrightarrow> map Some (map (the \<circ> f) xs) = map f xs"
  by (induction xs) auto

lemma shutdown_remotes:
  "remotes (fst (shutdown f g s)) =
     map (the \<circ> f) (takeWhile (\<lambda>x. f x \<noteq> None) (remotes s)) @
     dropWhile (\<lambda>x. f x \<noteq> None) (remotes s)"
  by (simp add: shutdown_def shutdownEach_eq)

lemma shutdown_localStores:
  "localStores (fst (shutdown f g s)) =
     (if \<forall>x \<in> set (remotes s). f x \<noteq> None
      then map (the \<circ> g) (takeWhile (\<lambda>y. g y \<noteq> None) (localStores s)) @
           dropWhile (\<lambda>y. g y \<noteq> None) (localStores s)
      else localStores s)"
  by (simp add: shutdown_def shutdownEach_eq del: not_None_eq)

lemma shutdown_settled:
  "(snd (shutdown f g s) = Resolved) =
     ((\<forall>x \<in> set (remotes s). f x \<noteq> None) \<and> (\<forall>y \<in> set (localStores s). g y \<noteq> None))"
  by (simp add: shutdown_def shutdownEach_eq)

text \<open>
One call: the commit array only grows at its end, and the two sets of refs only grow.
\<close>

lemma perform_grows:
  "\<exists>new. commits (snd (perform f g c s)) = commits s @ new"
  "syncedCommits s \<subseteq> syncedCommits (snd (perform f g c s))"
  "localCommitRefs s \<subseteq> localCommitRefs (snd (perform f g c s))"
  by (cases c; simp add: case_prod_beta commits_addCommits syncedCommits_addCommits
      localCommitRefs_addCommits acknowledgeCommits_eq shutdown_data split: option.splits; blast)+

lemma run_commits: "\<exists>new. commits (run f g cs s) = commits s @ new"
proof (induction cs arbitrary: s)
  case Nil
  then show ?case by simp
next
  case (Cons c cs)
  obtain n1 where "commits (snd (perform f g c s)) = commits s @ n1"
    using perform_grows(1) by blast
  moreover obtain n2 where
    "commits (run f g cs (snd (perform f g c s))) = commits (snd (perform f g c s)) @ n2"
    using Cons by blast
  ultimately show ?case by simp
qed

lemma run_syncedCommits: "syncedCommits s \<subseteq> syncedCommits (run f g cs s)"
proof (induction cs arbitrary: s)
  case Nil
  then show ?case by simp
next
  case (Cons c cs)
  have "syncedCommits s \<subseteq> syncedCommits (snd (perform f g c s))"
    by (rule perform_grows(2))
  also have "\<dots> \<subseteq> syncedCommits (run f g cs (snd (perform f g c s)))"
    by (rule Cons)
  finally show ?case by simp
qed

lemma run_localCommitRefs: "localCommitRefs s \<subseteq> localCommitRefs (run f g cs s)"
proof (induction cs arbitrary: s)
  case Nil
  then show ?case by simp
next
  case (Cons c cs)
  have "localCommitRefs s \<subseteq> localCommitRefs (snd (perform f g c s))"
    by (rule perform_grows(3))
  also have "\<dots> \<subseteq> localCommitRefs (run f g cs (snd (perform f g c s)))"
    by (rule Cons)
  finally show ?case by simp
qed

lemma run_length: "length (commits s) \<le> length (commits (run f g cs s))"
  using run_commits[of f g cs s] by auto

text \<open>
  In every store reached from a new one the known refs are exactly the refs of the stored
  commits, and no two stored commits share a ref.
\<close>

lemma perform_known_refs:
  "localCommitRefs s = ref ` set (commits s) \<Longrightarrow> distinct (map ref (commits s)) \<Longrightarrow>
   localCommitRefs (snd (perform f g c s)) = ref ` set (commits (snd (perform f g c s))) \<and>
   distinct (map ref (commits (snd (perform f g c s))))"
proof (cases c)
  case (AddCommits cs r)
  assume inv: "localCommitRefs s = ref ` set (commits s)" "distinct (map ref (commits s))"
  have sub: "ref ` set (accepted (localCommitRefs s) cs) \<subseteq> ref ` set cs"
    using accepted_fresh by fastforce
  have sup: "ref ` set cs \<subseteq> localCommitRefs s \<union> ref ` set (accepted (localCommitRefs s) cs)"
    using accepted_mem by fastforce
  have disj: "ref ` set (commits s) \<inter> ref ` set (accepted (localCommitRefs s) cs) = {}"
    using accepted_disjoint[of "localCommitRefs s" cs] inv(1) by simp
  from sub sup have "localCommitRefs s \<union> ref ` set cs =
      localCommitRefs s \<union> ref ` set (accepted (localCommitRefs s) cs)"
    by blast
  with inv disj AddCommits show ?thesis
    by (simp add: case_prod_beta commits_addCommits localCommitRefs_addCommits
        accepted_distinct image_Un)
next
  case (AcknowledgeCommits refs r)
  assume "localCommitRefs s = ref ` set (commits s)" "distinct (map ref (commits s))"
  with AcknowledgeCommits show ?thesis by (simp add: acknowledgeCommits_eq)
next
  case Shutdown
  assume "localCommitRefs s = ref ` set (commits s)" "distinct (map ref (commits s))"
  with Shutdown show ?thesis by (simp add: case_prod_beta shutdown_data)
qed simp_all

lemma run_known_refs:
  "localCommitRefs s = ref ` set (commits s) \<Longrightarrow> distinct (map ref (commits s)) \<Longrightarrow>
   localCommitRefs (run f g cs s) = ref ` set (commits (run f g cs s)) \<and>
   distinct (map ref (commits (run f g cs s)))"
proof (induction cs arbitrary: s)
  case Nil
  then show ?case by simp
next
  case (Cons c cs)
  from perform_known_refs[OF Cons.prems, of f g c]
  show ?case using Cons.IH by simp
qed

lemma reachable_known_refs:
  "localCommitRefs (run f g cs (newStore name i)) = ref ` set (commits (run f g cs (newStore name i))) \<and>
   distinct (map ref (commits (run f g cs (newStore name i))))"
  by (rule run_known_refs) (simp_all add: newStore_def)

text \<open>
The batches of \<^verbatim>\<open>getCommitsForRemote\<close>.
\<close>

lemma batches_empty: "batches i cs = [] \<longleftrightarrow> \<not> i < length cs"
  by (subst batches.simps) simp

lemma batches_step:
  "i < length cs \<Longrightarrow>
   batches i cs = CommitsEvent (take BATCH_SIZE (drop i cs)) None # batches (i + BATCH_SIZE) cs"
  using slice_range[of cs i "i + BATCH_SIZE"] by (subst batches.simps) simp

lemma yielded_batches: "yielded (batches i cs) = drop i cs"
proof (induction i cs rule: batches.induct)
  case (1 i cs)
  show ?case
  proof (cases "i < length cs")
    case True
    have "take BATCH_SIZE (drop i cs) @ drop (i + BATCH_SIZE) cs = drop i cs"
      by (metis add.commute append_take_drop_id drop_drop)
    with True 1 show ?thesis
      by (simp add: batches_step yielded_def)
  next
    case False
    then have "batches i cs = []" by (simp add: batches_empty)
    with False show ?thesis by (simp add: yielded_def)
  qed
qed

lemma batches_shape:
  "e \<in> set (batches i cs) \<Longrightarrow> \<exists>b. e = CommitsEvent b None \<and> b \<noteq> [] \<and> length b \<le> BATCH_SIZE"
proof (induction i cs rule: batches.induct)
  case (1 i cs)
  show ?case
  proof (cases "i < length cs")
    case True
    with 1 show ?thesis
      by (auto simp: batches_step BATCH_SIZE_def)
  next
    case False
    then have "batches i cs = []" by (simp add: batches_empty)
    with 1(2) show ?thesis by simp
  qed
qed

lemma batches_full:
  "e \<in> set (butlast (batches i cs)) \<Longrightarrow> length (eventCommits e) = BATCH_SIZE"
proof (induction i cs rule: batches.induct)
  case (1 i cs)
  show ?case
  proof (cases "i < length cs")
    case True
    note step = batches_step[OF True]
    show ?thesis
    proof (cases "batches (i + BATCH_SIZE) cs = []")
      case True
      with step 1(2) show ?thesis by simp
    next
      case False
      then have more: "i + BATCH_SIZE < length cs" by (simp add: batches_empty)
      from 1(2) step False
      have "e = CommitsEvent (take BATCH_SIZE (drop i cs)) None \<or>
            e \<in> set (butlast (batches (i + BATCH_SIZE) cs))"
        by auto
      then show ?thesis
      proof
        assume "e = CommitsEvent (take BATCH_SIZE (drop i cs)) None"
        with more show ?thesis by simp
      next
        assume "e \<in> set (butlast (batches (i + BATCH_SIZE) cs))"
        with 1(1) True show ?thesis by simp
      qed
    qed
  next
    case False
    then have "batches i cs = []" by (simp add: batches_empty)
    with 1(2) show ?thesis by simp
  qed
qed

lemma yielded_getCommitsForRemote:
  "yielded (getCommitsForRemote s) = filter (\<lambda>c. ref c \<notin> syncedCommits s) (commits s)"
  by (simp add: getCommitsForRemote_def unsyncedCommits_def yielded_batches)

lemma synced_not_yielded:
  "ref c \<in> syncedCommits s \<Longrightarrow> c \<notin> set (yielded (getCommitsForRemote s))"
  by (simp add: yielded_getCommitsForRemote)

lemma synced_never_yielded:
  "ref c \<in> syncedCommits s \<Longrightarrow> c \<notin> set (yielded (getCommitsForRemote (run f g calls s)))"
  using run_syncedCommits[of s f g calls] synced_not_yielded[of c "run f g calls s"] by auto

section \<open>Lemmas on the document store\<close>

text \<open>
  Nodes with fresh, pairwise distinct refs are all inserted, in order; a node whose ref is
  already a key makes the insert, and with it \<^verbatim>\<open>add\<close>, fail.
\<close>

lemma ref_toRow: "ref (toRow h sid n) = ref n"
  by (simp add: toRow_def)

lemma insertNodes_fresh:
  "distinct (map ref nodes) \<Longrightarrow> ref ` set nodes \<inter> ref ` set rows = {} \<Longrightarrow>
   insertNodes h sid nodes rows = Inr (rows @ map (toRow h sid) nodes)"
proof (induction nodes arbitrary: rows)
  case Nil
  then show ?case by simp
next
  case (Cons n ns)
  from Cons.prems have fresh: "ref n \<notin> ref ` set rows" by auto
  from Cons.prems have "ref ` set ns \<inter> ref ` set (rows @ [toRow h sid n]) = {}"
    by (auto simp: ref_toRow)
  with Cons have "insertNodes h sid ns (rows @ [toRow h sid n]) =
      Inr ((rows @ [toRow h sid n]) @ map (toRow h sid) ns)"
    by simp
  with fresh show ?case by simp
qed

lemma insertNodes_duplicate:
  "ref n \<in> ref ` set rows \<Longrightarrow> insertNodes h sid (n # ns) rows = Inl SqliteConstraintPrimaryKey"
  by simp

lemma insertRow_same_key:
  "\<forall>r \<in> set rows. remoteSyncId r = k \<Longrightarrow> remoteSyncId x = k \<Longrightarrow> sqlLessEq h k k \<Longrightarrow>
   insertRow h x rows = x # rows"
  by (cases rows) auto

lemma orderBy_same_key:
  "\<forall>r \<in> set rows. remoteSyncId r = k \<Longrightarrow> sqlLessEq h k k \<Longrightarrow>
   orderByRemoteSyncId h rows = rows"
proof (induction rows)
  case Nil
  then show ?case by (simp add: orderByRemoteSyncId_def)
next
  case (Cons x xs)
  then have "orderByRemoteSyncId h xs = xs" by simp
  then have "orderByRemoteSyncId h (x # xs) = insertRow h x xs"
    by (simp add: orderByRemoteSyncId_def)
  with Cons.prems show ?case
    by (simp add: insertRow_same_key[of xs k])
qed

lemma parseField_stringifyField:
  "serializable h x \<Longrightarrow> parseField h (stringifyField h x) = Inr x"
  by (auto simp: serializable_def parseField_def stringifyField_def split: option.splits)

lemma orUndefined_id: "x \<noteq> Some [] \<Longrightarrow> orUndefined x = x"
  by (auto simp: orUndefined_def split: option.splits)

lemma jsGreater_first: "(if jsGreater h (Str sid) (Str []) then Str sid else Str []) = Str sid"
  by (cases sid) auto

lemma readNodes_toRow:
  "\<forall>n \<in> set nodes. roundTrips h n \<Longrightarrow> integerAffinity h sid = None \<Longrightarrow>
   acc = Str [] \<or> acc = Str sid \<Longrightarrow>
   readNodes h (map (toRow h sid) nodes) acc =
     Inr (map (\<lambda>n. n\<lparr>remoteSyncId := Str sid\<rparr>) nodes, if nodes = [] then acc else Str sid)"
proof (induction nodes arbitrary: acc)
  case Nil
  then show ?case by simp
next
  case (Cons n ns)
  from Cons.prems(1) have rt: "roundTrips h n" and rest: "\<forall>n \<in> set ns. roundTrips h n"
    by auto
  have key: "remoteSyncId (toRow h sid n) = Str sid"
    using Cons.prems(2) by (simp add: toRow_def applyAffinity_def)
  have acc': "(if jsGreater h (Str sid) acc then Str sid else acc) = Str sid"
    using Cons.prems(3) jsGreater_first[of h sid] by auto
  have tail: "readNodes h (map (toRow h sid) ns) (Str sid) =
      Inr (map (\<lambda>n. n\<lparr>remoteSyncId := Str sid\<rparr>) ns, Str sid)"
    using Cons.IH[OF rest Cons.prems(2), of "Str sid"] by simp
  have d: "parseField h (delta (toRow h sid n)) = Inr (delta n)"
    using rt by (simp add: toRow_def roundTrips_def parseField_stringifyField)
  have m: "parseField h (editMetadata (toRow h sid n)) = Inr (editMetadata n)"
    using rt by (simp add: toRow_def roundTrips_def parseField_stringifyField)
  have parents: "orUndefined (baseRef (toRow h sid n)) = baseRef n"
      "orUndefined (mergeRef (toRow h sid n)) = mergeRef n"
      "orUndefined (mergeBaseRef (toRow h sid n)) = mergeBaseRef n"
    using rt by (simp_all add: toRow_def roundTrips_def orUndefined_id)
  have other: "ref (toRow h sid n) = ref n" "userId (toRow h sid n) = userId n"
      "clientId (toRow h sid n) = clientId n"
    by (simp_all add: toRow_def)
  show ?case
  proof (cases "jsGreater h (Str sid) acc")
    case True
    then show ?thesis
      by (simp add: key tail d m parents other)
  next
    case False
    with acc' have "acc = Str sid" by simp
    then show ?thesis
      by (simp add: key tail d m parents other)
  qed
qed

text \<open>
  \<^verbatim>\<open>add\<close> is not idempotent: a node whose ref is stored is rejected, so a second
  \<^verbatim>\<open>add\<close> of the same non-empty batch throws and leaves the table as it was.
\<close>

lemma add_duplicate_rejected:
  "ref n \<in> ref ` set db \<Longrightarrow> add h sid (n # ns) db = (Inl SqliteConstraintPrimaryKey, db)"
  by (simp add: add_def)

lemma add_twice_rejected:
  "distinct (map ref (n # ns)) \<Longrightarrow>
   add h sid' (n # ns) (snd (add h sid (n # ns) [])) =
     (Inl SqliteConstraintPrimaryKey, map (toRow h sid) (n # ns))"
proof -
  assume dist: "distinct (map ref (n # ns))"
  have "insertNodes h sid (n # ns) [] = Inr (map (toRow h sid) (n # ns))"
    using insertNodes_fresh[OF dist, of "[]" h sid] by simp
  then have db: "snd (add h sid (n # ns) []) = map (toRow h sid) (n # ns)"
    by (simp add: add_def)
  have "ref n \<in> ref ` set (map (toRow h sid) (n # ns))"
    by (simp add: ref_toRow)
  then show ?thesis
    unfolding db by (rule add_duplicate_rejected)
qed

text \<open>
  When the column turns the generated sync id into a number, every node is read back
  with that number as its \<^verbatim>\<open>remoteSyncId\<close>, not with the generated string.
\<close>

lemma set_insertRow: "set (insertRow h r rows) = insert r (set rows)"
  by (induction rows) auto

lemma set_orderByRemoteSyncId: "set (orderByRemoteSyncId h rows) = set rows"
  by (induction rows) (simp_all add: orderByRemoteSyncId_def set_insertRow)

lemma readNodes_remoteSyncId:
  "readNodes h rows acc = Inr (ns, final) \<Longrightarrow> map remoteSyncId ns = map remoteSyncId rows"
proof (induction rows arbitrary: acc ns final)
  case Nil
  then show ?case by simp
next
  case (Cons r rs)
  let ?acc = "if jsGreater h (remoteSyncId r) acc then remoteSyncId r else acc"
  show ?case
  proof (cases "parseField h (delta r)")
    case (Inl e)
    with Cons.prems show ?thesis by (simp add: Let_def)
  next
    case d: (Inr d)
    show ?thesis
    proof (cases "parseField h (editMetadata r)")
      case (Inl e)
      with d Cons.prems show ?thesis by (simp add: Let_def)
    next
      case m: (Inr m)
      show ?thesis
      proof (cases "readNodes h rs ?acc")
        case (Inl e)
        with d m Cons.prems show ?thesis by (simp add: Let_def)
      next
        case (Inr p)
        obtain ms fin where p: "p = (ms, fin)" by (cases p)
        from Cons.IH[of ?acc ms fin] Inr p
        have "map remoteSyncId ms = map remoteSyncId rs" by simp
        moreover from Cons.prems d m Inr p
        have "map remoteSyncId ns = remoteSyncId r # map remoteSyncId ms"
          by (auto simp: Let_def)
        ultimately show ?thesis by simp
      qed
    qed
  qed
qed

lemma remoteSyncId_toRow: "remoteSyncId (toRow h sid n) = applyAffinity h sid"
  by (simp add: toRow_def)

lemma insertNodes_keys:
  "insertNodes h sid ms rows = Inr rows' \<Longrightarrow>
   \<forall>r \<in> set rows. remoteSyncId r = applyAffinity h sid \<Longrightarrow>
   \<forall>r \<in> set rows'. remoteSyncId r = applyAffinity h sid"
proof (induction ms arbitrary: rows)
  case Nil
  then show ?case by simp
next
  case (Cons n ns)
  show ?case
  proof (cases "ref n \<in> ref ` set rows")
    case True
    with Cons.prems(1) show ?thesis by simp
  next
    case False
    with Cons.prems(1) have "insertNodes h sid ns (rows @ [toRow h sid n]) = Inr rows'"
      by simp
    moreover have "\<forall>r \<in> set (rows @ [toRow h sid n]). remoteSyncId r = applyAffinity h sid"
      using Cons.prems(2) by (simp add: remoteSyncId_toRow)
    ultimately show ?thesis by (rule Cons.IH)
  qed
qed

lemma numeric_sync_id_read_as_number:
  assumes "integerAffinity h sid = Some k"
    and "getNodesEvent h None (snd (add h sid nodes [])) = Inr (NodesEvent ns final)"
  shows "\<forall>x \<in> set ns. remoteSyncId x = Num k"
proof -
  have num: "applyAffinity h sid = Num k"
    using assms(1) by (simp add: applyAffinity_def)
  have db: "\<forall>r \<in> set (snd (add h sid nodes [])). remoteSyncId r = Num k"
  proof (cases "insertNodes h sid nodes []")
    case (Inl e)
    then show ?thesis by (simp add: add_def)
  next
    case (Inr rows')
    from insertNodes_keys[OF Inr] num Inr show ?thesis by (simp add: add_def)
  qed
  let ?rows = "selectNodes h None (snd (add h sid nodes []))"
  have rd: "\<exists>acc. readNodes h ?rows (Str []) = Inr (ns, acc)"
  proof (cases "readNodes h ?rows (Str [])")
    case (Inl e)
    with assms(2) show ?thesis by (simp add: getNodesEvent_def)
  next
    case (Inr p)
    obtain ms acc where "p = (ms, acc)" by (cases p)
    with Inr assms(2) show ?thesis by (simp add: getNodesEvent_def)
  qed
  then obtain acc where "readNodes h ?rows (Str []) = Inr (ns, acc)" ..
  then have "map remoteSyncId ns = map remoteSyncId ?rows"
    by (rule readNodes_remoteSyncId)
  then have "set (map remoteSyncId ns) = remoteSyncId ` set (snd (add h sid nodes []))"
    by (simp add: selectNodes_def set_orderByRemoteSyncId)
  with db show ?thesis by auto
qed

section \<open>The claims on the in-memory store\<close>

text \<open>
  Claim C1. \<^verbatim>\<open>addCommits\<close> is idempotent on ref: a second call with the same commits and
  the same \<^verbatim>\<open>remoteSyncId\<close> returns the same ack and leaves the whole store (commit
  sequence, known refs, synced set, cursors) as the first call left it. The commits a call
  appends are commits of its argument whose refs were unknown; a commit with a known ref
  is ignored, neither inserted again nor rejected, so a call whose refs are all known adds
  no commit and no ref.
\<close>

theorem addCommits_idempotent:
  "addCommits X r (snd (addCommits X r s)) = addCommits X r s \<and>
   commits (snd (addCommits X r s)) = commits s @ accepted (localCommitRefs s) X \<and>
   (\<forall>c \<in> set (accepted (localCommitRefs s) X). c \<in> set X \<and> ref c \<notin> localCommitRefs s) \<and>
   (ref ` set X \<subseteq> localCommitRefs s \<longrightarrow>
      commits (snd (addCommits X r s)) = commits s \<and>
      localCommitRefs (snd (addCommits X r s)) = localCommitRefs s)"
proof -
  have twice: "addCommits X r (snd (addCommits X r s)) = addCommits X r s"
  proof (cases r)
    case None
    then show ?thesis
      by (simp add: addCommits_None accepted_known Un_assoc)
  next
    case (Some x)
    then show ?thesis
      by (simp add: addCommits_Some accepted_known Un_assoc)
  qed
  have fresh: "\<forall>c \<in> set (accepted (localCommitRefs s) X). c \<in> set X \<and> ref c \<notin> localCommitRefs s"
    using accepted_fresh by blast
  have known: "commits (snd (addCommits X r s)) = commits s \<and>
      localCommitRefs (snd (addCommits X r s)) = localCommitRefs s"
    if "ref ` set X \<subseteq> localCommitRefs s"
    using that by (auto simp: commits_addCommits localCommitRefs_addCommits accepted_known)
  from twice fresh known show ?thesis
    by (simp add: commits_addCommits)
qed

theorem addCommits_idempotent_witness:
  "ref ` set [commitWithRef ''a'', commitWithRef ''b''] \<subseteq> localCommitRefs (storeWith [''a'', ''b''] {}) \<and>
   addCommits [commitWithRef ''a'', commitWithRef ''b''] None
     (snd (addCommits [commitWithRef ''a'', commitWithRef ''b''] None (storeWith [''a'', ''b''] {}))) =
   addCommits [commitWithRef ''a'', commitWithRef ''b''] None (storeWith [''a'', ''b''] {}) \<and>
   commits (snd (addCommits [commitWithRef ''a'', commitWithRef ''b''] None (storeWith [''a'', ''b''] {}))) =
   commits (storeWith [''a'', ''b''] {}) \<and>
   commitWithRef ''c''
     \<in> set (accepted (localCommitRefs (storeWith [''a'', ''b''] {}))
              [commitWithRef ''a'', commitWithRef ''c'']) \<and>
   ref (commitWithRef ''c'') \<notin> localCommitRefs (storeWith [''a'', ''b''] {})"
proof -
  have h1: "ref ` set [commitWithRef ''a'', commitWithRef ''b''] \<subseteq>
           localCommitRefs (storeWith [''a'', ''b''] {})"
    by (simp add: commitWithRef_def storeWith_def)
  have h2: "commitWithRef ''c''
     \<in> set (accepted (localCommitRefs (storeWith [''a'', ''b''] {}))
              [commitWithRef ''a'', commitWithRef ''c''])"
    by (simp add: commitWithRef_def storeWith_def)
  show ?thesis
    using h1 h2
      addCommits_idempotent
        [of "[commitWithRef ''a'', commitWithRef ''b'']" None "storeWith [''a'', ''b''] {}"]
      addCommits_idempotent
        [of "[commitWithRef ''a'', commitWithRef ''c'']" None "storeWith [''a'', ''b''] {}"]
    by blast
qed

text \<open>
  Claim C2. \<^verbatim>\<open>getCommitsForRemote\<close> yields exactly the stored commits whose ref is not
  marked as synced, in insertion order; every batch is a \<^verbatim>\<open>commits\<close> event with between 1
  and 5 commits, and every batch but the last has exactly 5. A commit that was yielded and
  whose ref is still not marked as synced after any further calls is yielded again by a
  fresh call.
\<close>

theorem getCommitsForRemote_batches:
  "yielded (getCommitsForRemote s) = filter (\<lambda>c. ref c \<notin> syncedCommits s) (commits s) \<and>
   (\<forall>e \<in> set (getCommitsForRemote s).
      \<exists>b. e = CommitsEvent b None \<and> b \<noteq> [] \<and> length b \<le> 5) \<and>
   (\<forall>e \<in> set (butlast (getCommitsForRemote s)). length (eventCommits e) = 5) \<and>
   (\<forall>c \<in> set (yielded (getCommitsForRemote s)).
      ref c \<notin> syncedCommits (run f g calls s) \<longrightarrow>
      c \<in> set (yielded (getCommitsForRemote (run f g calls s))))"
proof -
  have shape: "\<forall>e \<in> set (getCommitsForRemote s).
      \<exists>b. e = CommitsEvent b None \<and> b \<noteq> [] \<and> length b \<le> 5"
    using batches_shape[of _ 0 "unsyncedCommits s"]
    by (simp add: getCommitsForRemote_def BATCH_SIZE_def)
  have full: "\<forall>e \<in> set (butlast (getCommitsForRemote s)). length (eventCommits e) = 5"
    using batches_full[of _ 0 "unsyncedCommits s"]
    by (simp add: getCommitsForRemote_def BATCH_SIZE_def)
  have again: "c \<in> set (yielded (getCommitsForRemote (run f g calls s)))"
    if "c \<in> set (yielded (getCommitsForRemote s))"
      and "ref c \<notin> syncedCommits (run f g calls s)" for c
  proof -
    from that(1) have "c \<in> set (commits s)"
      by (simp add: yielded_getCommitsForRemote)
    moreover obtain new where "commits (run f g calls s) = commits s @ new"
      using run_commits by blast
    ultimately have "c \<in> set (commits (run f g calls s))" by simp
    with that(2) show ?thesis by (simp add: yielded_getCommitsForRemote)
  qed
  from shape full again show ?thesis
    by (simp add: yielded_getCommitsForRemote)
qed

theorem getCommitsForRemote_batches_witness:
  "CommitsEvent [commitWithRef ''g''] None
     \<in> set (getCommitsForRemote (storeWith [''a'', ''b'', ''c'', ''d'', ''e'', ''f'', ''g''] {''c''})) \<and>
   CommitsEvent (map commitWithRef [''a'', ''b'', ''d'', ''e'', ''f'']) None
     \<in> set (butlast (getCommitsForRemote (storeWith [''a'', ''b'', ''c'', ''d'', ''e'', ''f'', ''g''] {''c''}))) \<and>
   length (eventCommits (CommitsEvent (map commitWithRef [''a'', ''b'', ''d'', ''e'', ''f'']) None)) = 5 \<and>
   commitWithRef ''b''
     \<in> set (yielded (getCommitsForRemote (storeWith [''a'', ''b'', ''c'', ''d'', ''e'', ''f'', ''g''] {''c''}))) \<and>
   ref (commitWithRef ''b'')
     \<notin> syncedCommits (run Some Some [AcknowledgeCommits [''a''] ''r1'', AddCommits [commitWithRef ''h''] None]
          (storeWith [''a'', ''b'', ''c'', ''d'', ''e'', ''f'', ''g''] {''c''})) \<and>
   commitWithRef ''b''
     \<in> set (yielded (getCommitsForRemote
          (run Some Some [AcknowledgeCommits [''a''] ''r1'', AddCommits [commitWithRef ''h''] None]
             (storeWith [''a'', ''b'', ''c'', ''d'', ''e'', ''f'', ''g''] {''c''}))))"
proof -
  let ?s = "storeWith [''a'', ''b'', ''c'', ''d'', ''e'', ''f'', ''g''] {''c''}"
  let ?calls = "[AcknowledgeCommits [''a''] ''r1'', AddCommits [commitWithRef ''h''] None]"
  have ev: "getCommitsForRemote ?s =
      [CommitsEvent (map commitWithRef [''a'', ''b'', ''d'', ''e'', ''f'']) None,
       CommitsEvent [commitWithRef ''g''] None]"
    by (simp add: getCommitsForRemote_def unsyncedCommits_def storeWith_def newStore_def
        commitWithRef_def batches.simps slice_def relativeIndex_def BATCH_SIZE_def)
  have h1: "CommitsEvent [commitWithRef ''g''] None \<in> set (getCommitsForRemote ?s)"
    by (simp add: ev)
  have h2: "CommitsEvent (map commitWithRef [''a'', ''b'', ''d'', ''e'', ''f'']) None
      \<in> set (butlast (getCommitsForRemote ?s))"
    by (simp add: ev)
  have h3: "commitWithRef ''b'' \<in> set (yielded (getCommitsForRemote ?s))"
    by (simp add: ev yielded_def)
  have h4: "ref (commitWithRef ''b'') \<notin> syncedCommits (run Some Some ?calls ?s)"
    by (simp add: storeWith_def newStore_def acknowledgeCommits_def addCommits_def
        commitWithRef_def setAdd_def)
  show ?thesis
    using h1 h2 h3 h4 getCommitsForRemote_batches [of ?s Some Some ?calls]
    by blast
qed

text \<open>
  Claim C3. For a cursor the store handed out in state \<open>s0\<close>, \<^verbatim>\<open>getLocalCommitsEvent\<close>
  in any later state returns exactly the commits appended since, in insertion order, with
  the current cursor. In terms of sync ids: for the cursor of the number \<open>n\<close> it returns the
  commits whose local sync id is greater than \<open>n\<close>, by increasing position. Without a cursor
  it returns all commits.
\<close>

theorem getLocalCommitsEvent_since:
  "getLocalCommitsEvent (Some (syncCursor s0)) (run f g calls s0) =
     CommitsEvent (drop (length (commits s0)) (commits (run f g calls s0)))
       (Some (syncCursor (run f g calls s0))) \<and>
   commits (run f g calls s0) =
     commits s0 @ drop (length (commits s0)) (commits (run f g calls s0)) \<and>
   getLocalCommitsEvent (Some (toString36 n)) s =
     CommitsEvent (map ((!) (commits s)) (filter (\<lambda>i. n < localSyncId i) [0..<length (commits s)]))
       (Some (toString36 (length (commits s)))) \<and>
   getLocalCommitsEvent None s = CommitsEvent (commits s) (Some (toString36 (length (commits s))))"
proof -
  have since: "getLocalCommitsEvent (Some (toString36 k)) t =
      CommitsEvent (drop k (commits t)) (Some (syncCursor t))" for k t
    by (simp add: getLocalCommitsEvent_def getSyncCounter_toString36 slice_from)
  obtain new where new: "commits (run f g calls s0) = commits s0 @ new"
    using run_commits by blast
  have "getLocalCommitsEvent (Some (syncCursor s0)) (run f g calls s0) =
     CommitsEvent (drop (length (commits s0)) (commits (run f g calls s0)))
       (Some (syncCursor (run f g calls s0)))"
    using since[of "length (commits s0)"] by (simp add: syncCursor_def)
  moreover have "commits (run f g calls s0) =
     commits s0 @ drop (length (commits s0)) (commits (run f g calls s0))"
    by (simp add: new)
  moreover have "getLocalCommitsEvent (Some (toString36 n)) s =
     CommitsEvent (map ((!) (commits s)) (filter (\<lambda>i. n < localSyncId i) [0..<length (commits s)]))
       (Some (toString36 (length (commits s))))"
    using since[of n s] drop_as_positions[of n "commits s"]
    by (simp add: syncCursor_def localSyncId_def)
  moreover have "getLocalCommitsEvent None s =
      CommitsEvent (commits s) (Some (toString36 (length (commits s))))"
    by (simp add: getLocalCommitsEvent_def syncCursor_def)
  ultimately show ?thesis by blast
qed

text \<open>
  Claim C4. After \<^verbatim>\<open>addCommits(commits, remoteSyncId)\<close> every ref of the argument is marked
  as synced, \<^verbatim>\<open>getRemoteSyncInfo\<close> reports \<^verbatim>\<open>remoteSyncId\<close> as the last sync cursor, and
  an iteration of \<^verbatim>\<open>getCommitsForRemote\<close> started after the call, and after any further
  calls, yields none of these commits.
\<close>

theorem addCommits_remoteSyncId:
  "ref ` set cs \<subseteq> syncedCommits (snd (addCommits cs (Some r) s)) \<and>
   lastRemoteSyncCursor (snd (addCommits cs (Some r) s)) = Some r \<and>
   getRemoteSyncInfo (snd (addCommits cs (Some r) s)) = RemoteSyncInfo (localStoreId s) (Some r) \<and>
   (\<forall>c \<in> set cs.
      c \<notin> set (yielded (getCommitsForRemote (run f g calls (snd (addCommits cs (Some r) s))))))"
proof -
  let ?s' = "snd (addCommits cs (Some r) s)"
  have sub: "ref ` set cs \<subseteq> syncedCommits ?s'"
    by (simp add: addCommits_Some)
  have "c \<notin> set (yielded (getCommitsForRemote (run f g calls ?s')))" if "c \<in> set cs" for c
    using that sub synced_never_yielded[of c ?s' f g calls] by blast
  with sub show ?thesis
    by (simp add: addCommits_Some getRemoteSyncInfo_def)
qed

theorem addCommits_remoteSyncId_witness:
  "commitWithRef ''a'' \<in> set [commitWithRef ''a'', commitWithRef ''b''] \<and>
   commitWithRef ''a'' \<notin> set (yielded (getCommitsForRemote
      (run Some Some [AddCommits [commitWithRef ''a''] None, GetCommitsForRemote]
         (snd (addCommits [commitWithRef ''a'', commitWithRef ''b''] (Some ''r7'')
            (storeWith [] {}))))))"
proof -
  have h: "commitWithRef ''a'' \<in> set [commitWithRef ''a'', commitWithRef ''b'']"
    by simp
  show ?thesis
    using h addCommits_remoteSyncId
      [of "[commitWithRef ''a'', commitWithRef ''b'']" "''r7''" "storeWith [] {}" Some Some
          "[AddCommits [commitWithRef ''a''] None, GetCommitsForRemote]"]
    by blast
qed

text \<open>
  Claim C5. \<^verbatim>\<open>addCommits\<close> with a commit whose ref the store already knows and with a
  \<^verbatim>\<open>remoteSyncId\<close> is an acknowledgement: the call returns an ack that lists the ref, the
  stored commits with that ref are the same as before, the ref is marked as synced and the
  last sync cursor is the supplied one. When all refs of the argument are known, the commit
  sequence does not change at all. (By \<open>reachable_known_refs\<close> the known refs of a store
  reached from a new one are the refs of its stored commits.)
\<close>

theorem addCommits_existing_ref_is_ack:
  "c \<in> set cs \<Longrightarrow> ref c \<in> localCommitRefs s \<Longrightarrow>
   (\<exists>refs. fst (addCommits cs (Some r) s) =
             AckCommitsEvent refs (syncCursor (snd (addCommits cs (Some r) s))) \<and>
           ref c \<in> set refs) \<and>
   filter (\<lambda>x. ref x = ref c) (commits (snd (addCommits cs (Some r) s))) =
     filter (\<lambda>x. ref x = ref c) (commits s) \<and>
   ref c \<in> syncedCommits (snd (addCommits cs (Some r) s)) \<and>
   lastRemoteSyncCursor (snd (addCommits cs (Some r) s)) = Some r \<and>
   (ref ` set cs \<subseteq> localCommitRefs s \<longrightarrow> commits (snd (addCommits cs (Some r) s)) = commits s)"
proof -
  assume mem: "c \<in> set cs" and known: "ref c \<in> localCommitRefs s"
  have "ref x \<noteq> ref c" if "x \<in> set (accepted (localCommitRefs s) cs)" for x
    using that known accepted_fresh[of x "localCommitRefs s" cs] by auto
  then have "filter (\<lambda>x. ref x = ref c) (accepted (localCommitRefs s) cs) = []"
    by (simp add: filter_empty_conv)
  with mem show ?thesis
    by (simp add: addCommits_Some syncCursor_def set_foldl_setAdd accepted_known)
qed

theorem addCommits_existing_ref_is_ack_witness:
  "commitWithRef ''a'' \<in> set [commitWithRef ''a''] \<and>
   ref (commitWithRef ''a'') \<in> localCommitRefs (storeWith [''a'', ''b''] {}) \<and>
   filter (\<lambda>x. ref x = ref (commitWithRef ''a''))
     (commits (snd (addCommits [commitWithRef ''a''] (Some ''r9'') (storeWith [''a'', ''b''] {})))) =
   filter (\<lambda>x. ref x = ref (commitWithRef ''a'')) (commits (storeWith [''a'', ''b''] {})) \<and>
   ref (commitWithRef ''a'')
     \<in> syncedCommits (snd (addCommits [commitWithRef ''a''] (Some ''r9'') (storeWith [''a'', ''b''] {}))) \<and>
   lastRemoteSyncCursor (snd (addCommits [commitWithRef ''a''] (Some ''r9'') (storeWith [''a'', ''b''] {})))
     = Some ''r9'' \<and>
   commits (snd (addCommits [commitWithRef ''a''] (Some ''r9'') (storeWith [''a'', ''b''] {}))) =
     commits (storeWith [''a'', ''b''] {})"
proof -
  have h1: "commitWithRef ''a'' \<in> set [commitWithRef ''a'']"
    by simp
  have h2: "ref (commitWithRef ''a'') \<in> localCommitRefs (storeWith [''a'', ''b''] {})"
    by (simp add: commitWithRef_def storeWith_def)
  have h3: "ref ` set [commitWithRef ''a''] \<subseteq> localCommitRefs (storeWith [''a'', ''b''] {})"
    by (simp add: commitWithRef_def storeWith_def)
  show ?thesis
    using h1 h2 h3 addCommits_existing_ref_is_ack
      [of "commitWithRef ''a''" "[commitWithRef ''a'']" "storeWith [''a'', ''b''] {}" "''r9''"]
    by blast
qed

text \<open>
  Claim C6. \<^verbatim>\<open>acknowledgeCommits(refs, remoteSyncId)\<close> adds the refs to the synced set and
  sets the last sync cursor, and changes nothing else: the commit sequence, every commit
  record and the known refs stay as they are. An iteration of \<^verbatim>\<open>getCommitsForRemote\<close>
  started after the call yields what one would have yielded before it, without the commits
  of these refs, and none of them is yielded after any further calls.
\<close>

theorem acknowledgeCommits_frame:
  "acknowledgeCommits refs r s =
     s\<lparr>syncedCommits := syncedCommits s \<union> set refs, lastRemoteSyncCursor := Some r\<rparr> \<and>
   commits (acknowledgeCommits refs r s) = commits s \<and>
   localCommitRefs (acknowledgeCommits refs r s) = localCommitRefs s \<and>
   getRemoteSyncInfo (acknowledgeCommits refs r s) = RemoteSyncInfo (localStoreId s) (Some r) \<and>
   yielded (getCommitsForRemote (acknowledgeCommits refs r s)) =
     filter (\<lambda>c. ref c \<notin> set refs) (yielded (getCommitsForRemote s)) \<and>
   (\<forall>x \<in> set (yielded (getCommitsForRemote (run f g calls (acknowledgeCommits refs r s)))).
      ref x \<notin> set refs)"
proof -
  have never: "ref x \<notin> set refs"
    if "x \<in> set (yielded (getCommitsForRemote (run f g calls (acknowledgeCommits refs r s))))" for x
  proof
    assume "ref x \<in> set refs"
    then have "ref x \<in> syncedCommits (acknowledgeCommits refs r s)"
      by (simp add: acknowledgeCommits_eq)
    from synced_never_yielded[OF this, of f g calls] that show False by simp
  qed
  have "filter (\<lambda>c. ref c \<notin> syncedCommits s \<and> ref c \<notin> set refs) (commits s) =
        filter (\<lambda>c. ref c \<notin> set refs \<and> ref c \<notin> syncedCommits s) (commits s)"
    by (rule filter_cong) auto
  with never show ?thesis
    by (simp add: acknowledgeCommits_eq getRemoteSyncInfo_def yielded_getCommitsForRemote)
qed

theorem acknowledgeCommits_frame_witness:
  "commitWithRef ''b'' \<in> set (yielded (getCommitsForRemote
      (run Some Some [AddCommits [commitWithRef ''a''] None]
         (acknowledgeCommits [''a''] ''r3'' (storeWith [''a'', ''b''] {}))))) \<and>
   ref (commitWithRef ''b'') \<notin> set [''a'']"
proof -
  have h: "commitWithRef ''b'' \<in> set (yielded (getCommitsForRemote
      (run Some Some [AddCommits [commitWithRef ''a''] None]
         (acknowledgeCommits [''a''] ''r3'' (storeWith [''a'', ''b''] {})))))"
    by (simp add: yielded_getCommitsForRemote storeWith_def newStore_def acknowledgeCommits_def
        addCommits_def commitWithRef_def setAdd_def)
  show ?thesis
    using h acknowledgeCommits_frame
      [of "[''a'']" "''r3''" "storeWith [''a'', ''b''] {}" Some Some
          "[AddCommits [commitWithRef ''a''] None]"]
    by blast
qed

text \<open>
  Claim C7. \<^verbatim>\<open>addCommits\<close> appends the accepted commits at the end of the array: every
  commit stored before keeps its position, and so its local sync id, and every accepted
  commit gets a position whose local sync id is greater than all of those; every commit of
  the argument with an unknown ref is among the accepted ones. The cursor in the ack,
  decoded from base 36, is the number of stored commits after the call, it is not below the
  cursor before the call, and the cursor of any later ack is not below it.
\<close>

theorem localSyncId_monotonic:
  "commits (snd (addCommits cs r s)) = commits s @ accepted (localCommitRefs s) cs \<and>
   (\<forall>j < length (accepted (localCommitRefs s) cs).
      commits (snd (addCommits cs r s)) ! (length (commits s) + j) =
        accepted (localCommitRefs s) cs ! j \<and>
      (\<forall>i < length (commits s).
         commits (snd (addCommits cs r s)) ! i = commits s ! i \<and>
         localSyncId i < localSyncId (length (commits s) + j))) \<and>
   (\<forall>c \<in> set cs. ref c \<notin> localCommitRefs s \<longrightarrow>
      ref c \<in> ref ` set (accepted (localCommitRefs s) cs)) \<and>
   (\<exists>refs sid. fst (addCommits cs r s) = AckCommitsEvent refs sid \<and>
      getSyncCounter sid = Some (int (length (commits (snd (addCommits cs r s)))))) \<and>
   getSyncCounter (syncCursor s) = Some (int (length (commits s))) \<and>
   length (commits s) \<le> length (commits (snd (addCommits cs r s))) \<and>
   (\<exists>refs sid. fst (addCommits cs' r' (run f g calls (snd (addCommits cs r s)))) =
        AckCommitsEvent refs sid \<and>
      getSyncCounter sid =
        Some (int (length (commits (snd (addCommits cs' r' (run f g calls (snd (addCommits cs r s)))))))) \<and>
      length (commits (snd (addCommits cs r s))) \<le>
        length (commits (snd (addCommits cs' r' (run f g calls (snd (addCommits cs r s)))))))"
proof -
  let ?new = "accepted (localCommitRefs s) cs"
  let ?s' = "snd (addCommits cs r s)"
  have app: "commits ?s' = commits s @ ?new"
    by (rule commits_addCommits)
  have pos: "\<forall>j < length ?new.
      commits ?s' ! (length (commits s) + j) = ?new ! j \<and>
      (\<forall>i < length (commits s).
         commits ?s' ! i = commits s ! i \<and> localSyncId i < localSyncId (length (commits s) + j))"
    by (simp add: app nth_append localSyncId_def)
  have acc: "\<forall>c \<in> set cs. ref c \<notin> localCommitRefs s \<longrightarrow> ref c \<in> ref ` set ?new"
    using accepted_mem by blast
  have ack: "\<exists>refs sid. fst (addCommits xs x t) = AckCommitsEvent refs sid \<and>
      getSyncCounter sid = Some (int (length (commits (snd (addCommits xs x t)))))" for xs x t
    by (cases x) (simp_all add: addCommits_None addCommits_Some getSyncCounter_toString36)
  have cur: "getSyncCounter (syncCursor s) = Some (int (length (commits s)))"
    by (simp add: syncCursor_def getSyncCounter_toString36)
  have le1: "length (commits s) \<le> length (commits ?s')"
    by (simp add: app)
  have le2: "length (commits ?s') \<le>
      length (commits (snd (addCommits cs' r' (run f g calls ?s'))))"
    using run_length[of ?s' f g calls] by (simp add: commits_addCommits)
  from app pos acc ack[of cs r s] cur le1 ack[of cs' r' "run f g calls ?s'"] le2
  show ?thesis by blast
qed

theorem localSyncId_monotonic_witness:
  "(0::nat) < length (accepted (localCommitRefs (storeWith [''a''] {}))
                 [commitWithRef ''a'', commitWithRef ''b'']) \<and>
   (0::nat) < length (commits (storeWith [''a''] {})) \<and>
   commitWithRef ''b'' \<in> set [commitWithRef ''a'', commitWithRef ''b''] \<and>
   ref (commitWithRef ''b'') \<notin> localCommitRefs (storeWith [''a''] {}) \<and>
   commits (snd (addCommits [commitWithRef ''a'', commitWithRef ''b''] None (storeWith [''a''] {})))
     ! (length (commits (storeWith [''a''] {})) + 0) =
     accepted (localCommitRefs (storeWith [''a''] {})) [commitWithRef ''a'', commitWithRef ''b''] ! 0 \<and>
   localSyncId 0 < localSyncId (length (commits (storeWith [''a''] {})) + 0) \<and>
   ref (commitWithRef ''b'')
     \<in> ref ` set (accepted (localCommitRefs (storeWith [''a''] {}))
                   [commitWithRef ''a'', commitWithRef ''b''])"
proof -
  let ?s = "storeWith [''a''] {}"
  let ?cs = "[commitWithRef ''a'', commitWithRef ''b'']"
  have h1: "(0::nat) < length (accepted (localCommitRefs ?s) ?cs)"
    by (simp add: storeWith_def newStore_def commitWithRef_def)
  have h2: "(0::nat) < length (commits ?s)"
    by (simp add: storeWith_def)
  have h3: "commitWithRef ''b'' \<in> set ?cs"
    by simp
  have h4: "ref (commitWithRef ''b'') \<notin> localCommitRefs ?s"
    by (simp add: storeWith_def newStore_def commitWithRef_def)
  show ?thesis
    using h1 h2 h3 h4 localSyncId_monotonic [of ?cs None ?s "[]" None Some Some "[]"]
    by blast
qed

text \<open>
  Claim C8, as stated, fails: the store keeps no record of having been shut down. Here
  \<^verbatim>\<open>shutdown\<close> resolves, having shut down the one remote and the one local store, and a
  following \<^verbatim>\<open>addCommits\<close> returns an ack and stores the commit.
\<close>

theorem shutdown_then_addCommits_counterexample:
  "shutdown (\<lambda>closed. Some True) (\<lambda>closed. Some True)
     ((newStore ''doc'' ''store'' :: (string, string, string, bool, bool) memoryStore)
        \<lparr>remotes := [False], localStores := [False]\<rparr>) =
     ((newStore ''doc'' ''store'')\<lparr>remotes := [True], localStores := [True]\<rparr>, Resolved) \<and>
   addCommits [commitWithRef ''a''] None
     ((newStore ''doc'' ''store'' :: (string, string, string, bool, bool) memoryStore)
        \<lparr>remotes := [True], localStores := [True]\<rparr>) =
     (AckCommitsEvent [''a''] ''1'',
      (newStore ''doc'' ''store'')
        \<lparr>remotes := [True], localStores := [True], commits := [commitWithRef ''a''],
         localCommitRefs := {''a''}\<rparr>)"
proof -
  have one: "toString36 (Suc 0) = ''1''"
    by code_simp
  show ?thesis
    by (simp add: shutdown_def newStore_def addCommits_def commitWithRef_def setAdd_def
        syncCursor_def one)
qed

text \<open>
  Claim C8, amended. \<^verbatim>\<open>shutdown\<close> awaits the shutdown of every remote, in order, and then
  of every local store. It resolves exactly when each of these shutdowns resolves, and then
  every remote and every local store of the store has been shut down. When one of them
  rejects, \<^verbatim>\<open>shutdown\<close> rejects at that point: the objects before it have been shut down and
  the others are left as they are. \<^verbatim>\<open>shutdown\<close> changes nothing else in the store, which keeps
  no record of it: on the store it leaves, each public operation returns the same result
  and makes the same change to the commits, the known refs, the synced set and the cursor
  as on the store before the shutdown.
\<close>

theorem shutdown_keeps_store_open:
  "commits (fst (shutdown f g s)) = commits s \<and>
   localCommitRefs (fst (shutdown f g s)) = localCommitRefs s \<and>
   syncedCommits (fst (shutdown f g s)) = syncedCommits s \<and>
   lastRemoteSyncCursor (fst (shutdown f g s)) = lastRemoteSyncCursor s \<and>
   addCommits cs r (fst (shutdown f g s)) =
     (fst (addCommits cs r s),
      (snd (addCommits cs r s))\<lparr>remotes := remotes (fst (shutdown f g s)),
                                localStores := localStores (fst (shutdown f g s))\<rparr>) \<and>
   acknowledgeCommits refs x (fst (shutdown f g s)) =
     (acknowledgeCommits refs x s)\<lparr>remotes := remotes (fst (shutdown f g s)),
                                   localStores := localStores (fst (shutdown f g s))\<rparr> \<and>
   getLocalCommitsEvent c (fst (shutdown f g s)) = getLocalCommitsEvent c s \<and>
   getRemoteSyncInfo (fst (shutdown f g s)) = getRemoteSyncInfo s \<and>
   getCommitsForRemote (fst (shutdown f g s)) = getCommitsForRemote s \<and>
   fst (shutdown f g s) =
     s\<lparr>remotes := remotes (fst (shutdown f g s)),
       localStores := localStores (fst (shutdown f g s))\<rparr> \<and>
   (snd (shutdown f g s) = Resolved) =
     ((\<forall>x \<in> set (remotes s). f x \<noteq> None) \<and> (\<forall>y \<in> set (localStores s). g y \<noteq> None)) \<and>
   (snd (shutdown f g s) = Resolved \<longrightarrow>
      map Some (remotes (fst (shutdown f g s))) = map f (remotes s) \<and>
      map Some (localStores (fst (shutdown f g s))) = map g (localStores s)) \<and>
   remotes (fst (shutdown f g s)) =
     map (the \<circ> f) (takeWhile (\<lambda>x. f x \<noteq> None) (remotes s)) @
     dropWhile (\<lambda>x. f x \<noteq> None) (remotes s) \<and>
   localStores (fst (shutdown f g s)) =
     (if \<forall>x \<in> set (remotes s). f x \<noteq> None
      then map (the \<circ> g) (takeWhile (\<lambda>y. g y \<noteq> None) (localStores s)) @
           dropWhile (\<lambda>y. g y \<noteq> None) (localStores s)
      else localStores s)"
proof -
  let ?s' = "fst (shutdown f g s)"
  have eq: "?s' = s\<lparr>remotes := remotes ?s', localStores := localStores ?s'\<rparr>"
    by (rule shutdown_eq)
  have add: "addCommits cs r (t\<lparr>remotes := a, localStores := b\<rparr>) =
      (fst (addCommits cs r t), (snd (addCommits cs r t))\<lparr>remotes := a, localStores := b\<rparr>)"
    for t :: "('a, 'b, 'c, 'd, 'e) memoryStore" and a b
    by (cases r) (simp_all add: addCommits_None addCommits_Some)
  have ops: "addCommits cs r ?s' =
     (fst (addCommits cs r s),
      (snd (addCommits cs r s))\<lparr>remotes := remotes ?s', localStores := localStores ?s'\<rparr>)"
    by (subst eq) (rule add)
  have ack: "acknowledgeCommits refs x ?s' =
     (acknowledgeCommits refs x s)\<lparr>remotes := remotes ?s', localStores := localStores ?s'\<rparr>"
    by (subst eq) (simp add: acknowledgeCommits_eq)
  have loc: "getLocalCommitsEvent c ?s' = getLocalCommitsEvent c s"
    by (simp add: getLocalCommitsEvent_def syncCursor_def shutdown_data cong: option.case_cong)
  have info: "getRemoteSyncInfo ?s' = getRemoteSyncInfo s"
    by (simp add: getRemoteSyncInfo_def shutdown_data)
  have rem: "getCommitsForRemote ?s' = getCommitsForRemote s"
    by (simp add: getCommitsForRemote_def unsyncedCommits_def shutdown_data)
  have resolved: "map Some (remotes ?s') = map f (remotes s) \<and>
      map Some (localStores ?s') = map g (localStores s)"
    if "snd (shutdown f g s) = Resolved"
  proof -
    from that have all: "\<forall>x \<in> set (remotes s). f x \<noteq> None" "\<forall>y \<in> set (localStores s). g y \<noteq> None"
      by (simp_all add: shutdown_settled)
    note rs = all_resolved[OF all(1)] and ls = all_resolved[OF all(2)]
    have "remotes ?s' = map (the \<circ> f) (remotes s)"
      by (simp only: shutdown_remotes rs append_Nil2)
    moreover have "localStores ?s' = map (the \<circ> g) (localStores s)"
      by (subst shutdown_localStores, subst if_P, rule all(1)) (simp only: ls append_Nil2)
    ultimately show ?thesis
      using all by (simp only: map_Some_the)
  qed
  have data: "commits ?s' = commits s" "localCommitRefs ?s' = localCommitRefs s"
    "syncedCommits ?s' = syncedCommits s" "lastRemoteSyncCursor ?s' = lastRemoteSyncCursor s"
    by (simp_all add: shutdown_data)
  from data ops ack loc info rem eq shutdown_settled[of f g s] resolved
    shutdown_remotes[of f g s] shutdown_localStores[of f g s]
  show ?thesis by blast
qed

theorem shutdown_keeps_store_open_witness:
  "snd (shutdown (\<lambda>closed. Some True) (\<lambda>closed. Some True)
     ((newStore ''doc'' ''store'' :: (string, string, string, bool, bool) memoryStore)
        \<lparr>remotes := [False, False], localStores := [False]\<rparr>)) = Resolved \<and>
   map Some (remotes (fst (shutdown (\<lambda>closed. Some True) (\<lambda>closed. Some True)
     ((newStore ''doc'' ''store'' :: (string, string, string, bool, bool) memoryStore)
        \<lparr>remotes := [False, False], localStores := [False]\<rparr>)))) =
     map (\<lambda>closed. Some True) [False, False] \<and>
   map Some (localStores (fst (shutdown (\<lambda>closed. Some True) (\<lambda>closed. Some True)
     ((newStore ''doc'' ''store'' :: (string, string, string, bool, bool) memoryStore)
        \<lparr>remotes := [False, False], localStores := [False]\<rparr>)))) =
     map (\<lambda>closed. Some True) [False]"
proof -
  let ?s = "(newStore ''doc'' ''store'' :: (string, string, string, bool, bool) memoryStore)
        \<lparr>remotes := [False, False], localStores := [False]\<rparr>"
  have h: "snd (shutdown (\<lambda>closed. Some True) (\<lambda>closed. Some True) ?s) = Resolved"
    by (simp add: shutdown_def newStore_def)
  have r: "remotes ?s = [False, False]" "localStores ?s = [False]"
    by simp_all
  show ?thesis
    using h r shutdown_keeps_store_open
      [of "\<lambda>closed. Some True" "\<lambda>closed. Some True" ?s]
    by simp
qed

text \<open>
  Claim C10. \<^verbatim>\<open>acknowledgeCommits\<close> does not check that the refs are stored: for any refs
  it marks them all as synced and sets the last sync cursor, adding no commit. So a commit
  whose ref was acknowledged first and that is added later without a \<^verbatim>\<open>remoteSyncId\<close>,
  with any calls in between and after, is stored but never yielded by
  \<^verbatim>\<open>getCommitsForRemote\<close>.
\<close>

theorem acknowledgeCommits_unknown_refs:
  "ref c \<in> set refs \<Longrightarrow>
   set refs \<subseteq> syncedCommits (acknowledgeCommits refs r s) \<and>
   lastRemoteSyncCursor (acknowledgeCommits refs r s) = Some r \<and>
   commits (acknowledgeCommits refs r s) = commits s \<and>
   c \<notin> set (yielded (getCommitsForRemote
         (run f g after (snd (addCommits [c] None (run f g before (acknowledgeCommits refs r s))))))) \<and>
   (ref c \<notin> localCommitRefs (run f g before (acknowledgeCommits refs r s)) \<longrightarrow>
      c \<in> set (commits
         (run f g after (snd (addCommits [c] None (run f g before (acknowledgeCommits refs r s)))))))"
proof -
  assume mem: "ref c \<in> set refs"
  let ?s1 = "acknowledgeCommits refs r s"
  let ?s2 = "run f g before ?s1"
  let ?s3 = "snd (addCommits [c] None ?s2)"
  let ?s4 = "run f g after ?s3"
  have "ref c \<in> syncedCommits ?s1"
    using mem by (simp add: acknowledgeCommits_eq)
  then have "ref c \<in> syncedCommits ?s2"
    using run_syncedCommits[of ?s1 f g before] by blast
  then have "ref c \<in> syncedCommits ?s3"
    by (simp add: addCommits_None)
  then have never: "c \<notin> set (yielded (getCommitsForRemote ?s4))"
    by (rule synced_never_yielded)
  have stored: "c \<in> set (commits ?s4)" if "ref c \<notin> localCommitRefs ?s2"
  proof -
    from that have "c \<in> set (commits ?s3)"
      by (simp add: addCommits_None)
    moreover obtain new where "commits ?s4 = commits ?s3 @ new"
      using run_commits by blast
    ultimately show ?thesis by simp
  qed
  from never stored show ?thesis
    by (simp add: acknowledgeCommits_eq)
qed

theorem acknowledgeCommits_unknown_refs_witness:
  "ref (commitWithRef ''x'') \<in> set [''x''] \<and>
   ref (commitWithRef ''x'')
     \<notin> localCommitRefs (run Some Some [] (acknowledgeCommits [''x''] ''r1'' (storeWith [] {}))) \<and>
   commitWithRef ''x'' \<in> set (commits (run Some Some [GetCommitsForRemote]
      (snd (addCommits [commitWithRef ''x''] None
         (run Some Some [] (acknowledgeCommits [''x''] ''r1'' (storeWith [] {}))))))) \<and>
   commitWithRef ''x'' \<notin> set (yielded (getCommitsForRemote (run Some Some [GetCommitsForRemote]
      (snd (addCommits [commitWithRef ''x''] None
         (run Some Some [] (acknowledgeCommits [''x''] ''r1'' (storeWith [] {})))))))) \<and>
   lastRemoteSyncCursor (acknowledgeCommits [''x''] ''r1'' (storeWith [] {})) = Some ''r1''"
proof -
  have h1: "ref (commitWithRef ''x'') \<in> set [''x'']"
    by (simp add: commitWithRef_def)
  have h2: "ref (commitWithRef ''x'')
     \<notin> localCommitRefs (run Some Some [] (acknowledgeCommits [''x''] ''r1'' (storeWith [] {})))"
    by (simp add: commitWithRef_def acknowledgeCommits_def storeWith_def newStore_def)
  show ?thesis
    using h1 h2 acknowledgeCommits_unknown_refs
      [of "commitWithRef ''x''" "[''x'']" "''r1''" "storeWith [] {}" Some Some
          "[GetCommitsForRemote]" "[]"]
    by blast
qed

section \<open>The claim on the document store\<close>

text \<open>
  Claim C9, as stated, fails for the empty list of nodes: \<^verbatim>\<open>add([])\<close> on an empty store
  returns the generated value as the ack's sync id, while \<^verbatim>\<open>getNodesEvent()\<close> finds no
  row and returns the empty string as the event's sync id.
\<close>

theorem docStore_empty_batch_counterexample:
  "fst (add sampleHost ''2021-11-05T10:00:00.000Z'' [] []) =
     Inr (AckNodesEvent [] ''2021-11-05T10:00:00.000Z'') \<and>
   getNodesEvent sampleHost None (snd (add sampleHost ''2021-11-05T10:00:00.000Z'' [] [])) =
     Inr (NodesEvent [] [])"
  by (simp add: add_def getNodesEvent_def selectNodes_def orderByRemoteSyncId_def)

text \<open>
  Claim C9, amended. Let the nodes have distinct refs, JSON-serializable \<^verbatim>\<open>delta\<close> and
  \<^verbatim>\<open>editMetadata\<close> and no empty-string parent ref, and let the generated sync id be a text
  that the column \<^verbatim>\<open>remoteSyncId\<close> keeps as text (as the default ISO time stamp is). Then
  \<^verbatim>\<open>add(nodes)\<close> on an empty store returns an ack with the refs and the generated value,
  and \<^verbatim>\<open>getNodesEvent()\<close> returns the same nodes, each with its
  \<^verbatim>\<open>remoteSyncId\<close> set to the generated value and every other field as given; the event's
  sync id is the generated value when there is at least one node, and the empty string
  when there is none.
\<close>

theorem docStore_round_trip:
  "distinct (map ref nodes) \<Longrightarrow> \<forall>n \<in> set nodes. roundTrips h n \<Longrightarrow>
   integerAffinity h sid = None \<Longrightarrow>
   fst (add h sid nodes []) = Inr (AckNodesEvent (map ref nodes) sid) \<and>
   getNodesEvent h None (snd (add h sid nodes [])) =
     Inr (NodesEvent (map (\<lambda>n. n\<lparr>remoteSyncId := Str sid\<rparr>) nodes)
            (if nodes = [] then [] else sid))"
proof -
  assume dist: "distinct (map ref nodes)" and rt: "\<forall>n \<in> set nodes. roundTrips h n"
    and kept: "integerAffinity h sid = None"
  have ins: "insertNodes h sid nodes [] = Inr (map (toRow h sid) nodes)"
    using insertNodes_fresh[OF dist, of "[]" h sid] by simp
  have keys: "\<forall>r \<in> set (map (toRow h sid) nodes). remoteSyncId r = Str sid"
    using kept by (simp add: toRow_def applyAffinity_def)
  have sel: "selectNodes h None (map (toRow h sid) nodes) = map (toRow h sid) nodes"
    using orderBy_same_key[OF keys, of h] by (simp add: selectNodes_def)
  have rd: "readNodes h (map (toRow h sid) nodes) (Str []) =
      Inr (map (\<lambda>n. n\<lparr>remoteSyncId := Str sid\<rparr>) nodes, if nodes = [] then Str [] else Str sid)"
    using readNodes_toRow[OF rt kept, of "Str []"] by simp
  show ?thesis
    by (simp add: add_def ins getNodesEvent_def sel rd)
qed

theorem docStore_round_trip_witness:
  "distinct (map ref [nodeWithRef ''a'' None, nodeWithRef ''b'' (Some ''a'')]) \<and>
   roundTrips sampleHost (nodeWithRef ''a'' None) \<and>
   roundTrips sampleHost (nodeWithRef ''b'' (Some ''a'')) \<and>
   integerAffinity sampleHost ''2021-11-05T10:00:00.000Z'' = None \<and>
   fst (add sampleHost ''2021-11-05T10:00:00.000Z''
          [nodeWithRef ''a'' None, nodeWithRef ''b'' (Some ''a'')] []) =
     Inr (AckNodesEvent [''a'', ''b''] ''2021-11-05T10:00:00.000Z'') \<and>
   getNodesEvent sampleHost None
     (snd (add sampleHost ''2021-11-05T10:00:00.000Z''
             [nodeWithRef ''a'' None, nodeWithRef ''b'' (Some ''a'')] [])) =
     Inr (NodesEvent
            [(nodeWithRef ''a'' None)\<lparr>remoteSyncId := Str ''2021-11-05T10:00:00.000Z''\<rparr>,
             (nodeWithRef ''b'' (Some ''a''))\<lparr>remoteSyncId := Str ''2021-11-05T10:00:00.000Z''\<rparr>]
            ''2021-11-05T10:00:00.000Z'')"
proof -
  let ?nodes = "[nodeWithRef ''a'' None, nodeWithRef ''b'' (Some ''a'')]"
  have h1: "distinct (map ref ?nodes)"
    by (simp add: nodeWithRef_def)
  have h2: "\<forall>n \<in> set ?nodes. roundTrips sampleHost n"
    by (simp add: nodeWithRef_def roundTrips_def serializable_def sampleHost_def)
  have h3: "integerAffinity sampleHost ''2021-11-05T10:00:00.000Z'' = None"
    by (simp add: sampleHost_def)
  have refs: "map ref ?nodes = [''a'', ''b'']"
    by (simp add: nodeWithRef_def)
  have h2': "roundTrips sampleHost (nodeWithRef ''a'' None) \<and>
      roundTrips sampleHost (nodeWithRef ''b'' (Some ''a''))"
    using h2 by simp
  show ?thesis
    using h1 h2' h3 refs docStore_round_trip [OF h1 h2 h3]
    by simp
qed

end
